theory Spec2Isabelle
  imports Main "HOL-Library.Multiset" "HOL-Library.Char_ord" "HOL-Library.List_Lexorder"
begin

section \<open>The selection menu of emubox (\<^verbatim>\<open>emu_select_list\<close> in \<^verbatim>\<open>emubox.c\<close>)\<close>

text \<open>
  The C function reads the configuration directory twice (once in \<^verbatim>\<open>emu_content_len\<close> to
  size things, once to copy the names), sorts the names with \<^verbatim>\<open>qsort\<close>, and then runs a
  render / read-key loop over three \<^verbatim>\<open>int\<close> variables: \<^verbatim>\<open>xs\<close> (first index of the page),
  \<^verbatim>\<open>run_idx\<close> (highlighted index) and \<^verbatim>\<open>end_page\<close>.

  Conventions of the embedding:
  \<^item> a directory is the list of its \<^verbatim>\<open>struct dirent\<close>s in enumeration order; both passes over
    the directory see the same list (no file appears or vanishes in between);
  \<^item> C \<^verbatim>\<open>int\<close> variables are \<open>int\<close>, \<^verbatim>\<open>size_t\<close> variables are \<open>nat\<close>: every value is bounded
    by the number of entries or by the sum of the name lengths, which are assumed to fit;
  \<^item> the pointer array \<^verbatim>\<open>arr\<close> is a \<open>string option list\<close> of the allocated length, \<open>None\<close> being
    \<^verbatim>\<open>NULL\<close>; an access outside the allocation is undefined behaviour in C and is the
    explicit fault \<open>BadAccess\<close> here;
  \<^item> the keyboard is the list of the keys that \<^verbatim>\<open>wgetch\<close> will deliver; when the list is used up
    the session is blocked in \<^verbatim>\<open>wgetch\<close>, which is the result \<open>Waiting\<close> with the state it waits in.
\<close>

subsection \<open>Directory entries\<close>

datatype file_type = DT_REG | DT_DIR | DT_LNK | DT_FIFO | DT_SOCK | DT_CHR | DT_BLK | DT_UNKNOWN

record dirent =
  d_name :: string
  d_type :: file_type

subsection \<open>\<^verbatim>\<open>strcmp\<close>, \<^verbatim>\<open>qsort_compare\<close> and \<^verbatim>\<open>qsort\<close>\<close>

text \<open>
  \<^verbatim>\<open>strcmp\<close> compares the strings as sequences of \<^verbatim>\<open>unsigned char\<close>; only the sign of its
  result is specified. The model returns the difference of the first two bytes that differ. A C
  string holds no NUL byte, so the model is meant for NUL-free lists.
\<close>

fun strcmp :: "string \<Rightarrow> string \<Rightarrow> int" where
  "strcmp [] [] = 0"
| "strcmp [] (b # bs) = - int (of_char b)"
| "strcmp (a # as) [] = int (of_char a)"
| "strcmp (a # as) (b # bs) =
     (if a = b then strcmp as bs else int (of_char a) - int (of_char b))"

text \<open>
  \<^verbatim>\<open>qsort_compare\<close> dereferences two slots of the pointer array and calls \<^verbatim>\<open>strcmp\<close>. It is only
  ever called on the first \<^verbatim>\<open>pre_idx\<close> slots, which are not \<^verbatim>\<open>NULL\<close>; the \<open>None\<close> cases are
  never reached (in C they would dereference \<^verbatim>\<open>NULL\<close>).
\<close>

fun qsort_compare :: "string option \<Rightarrow> string option \<Rightarrow> int" where
  "qsort_compare (Some s0) (Some s1) = strcmp s0 s1"
| "qsort_compare _ _ = 0"

text \<open>
  \<^verbatim>\<open>qsort\<close> is the C library's. Its contract: the first \<^verbatim>\<open>nmemb\<close> elements are permuted into
  ascending order of the comparison function, the rest of the array is untouched. The stand-in
  is insertion sort; lemma \<open>qsort_contract_unique\<close> shows that on file names every permutation
  that is ascending for \<^verbatim>\<open>strcmp\<close> is the same list, so the choice of the algorithm is immaterial.
\<close>

fun insert_by :: "('a \<Rightarrow> 'a \<Rightarrow> int) \<Rightarrow> 'a \<Rightarrow> 'a list \<Rightarrow> 'a list" where
  "insert_by compar x [] = [x]"
| "insert_by compar x (y # ys) =
     (if compar x y \<le> 0 then x # y # ys else y # insert_by compar x ys)"

definition qsort :: "'a list \<Rightarrow> nat \<Rightarrow> ('a \<Rightarrow> 'a \<Rightarrow> int) \<Rightarrow> 'a list" where
  "qsort base nmemb compar = foldr (insert_by compar) (take nmemb base) [] @ drop nmemb base"

subsection \<open>\<^verbatim>\<open>emu_content_len\<close>\<close>

record content_len_info =
  name_sz :: nat
  column_sz :: nat
  row_sz :: nat

fun content_len_loop :: "dirent list \<Rightarrow> content_len_info \<Rightarrow> content_len_info" where
  "content_len_loop [] clinfo = clinfo"
| "content_len_loop (den # rest) clinfo =
     (if d_name den = ''.'' \<or> d_name den = ''..'' then content_len_loop rest clinfo
      else if d_type den = DT_REG then
        (let tsz = length (d_name den) in
         content_len_loop rest
           \<lparr>name_sz = name_sz clinfo + tsz,
            column_sz = (if column_sz clinfo < 10 then column_sz clinfo + 1 else column_sz clinfo),
            row_sz = (if tsz > row_sz clinfo then tsz else row_sz clinfo)\<rparr>)
      else content_len_loop rest clinfo)"

definition emu_content_len :: "dirent list \<Rightarrow> content_len_info" where
  "emu_content_len dents =
     (let clinfo = content_len_loop dents \<lparr>name_sz = 0, column_sz = 0, row_sz = 0\<rparr>
      in clinfo\<lparr>column_sz := column_sz clinfo + 5, row_sz := row_sz clinfo + 13\<rparr>)"

subsection \<open>The pointer array\<close>

datatype fault = OutOfRange | BadAccess

text \<open>Reading \<^verbatim>\<open>arr[i]\<close>: \<open>None\<close> when \<open>i\<close> is outside the allocation.\<close>

definition arr_at :: "string option list \<Rightarrow> int \<Rightarrow> string option option" where
  "arr_at arr i = (if 0 \<le> i \<and> i < int (length arr) then Some (arr ! nat i) else None)"

text \<open>The second \<^verbatim>\<open>readdir\<close> loop: \<^verbatim>\<open>arr[pre_idx]\<close> receives a copy of the name, \<^verbatim>\<open>pre_idx++\<close>.\<close>

fun read_loop :: "dirent list \<Rightarrow> string option list \<Rightarrow> int \<Rightarrow> fault + (string option list \<times> int)" where
  "read_loop [] arr pre_idx = Inr (arr, pre_idx)"
| "read_loop (den # rest) arr pre_idx =
     (if d_name den = ''.'' \<or> d_name den = ''..'' then read_loop rest arr pre_idx
      else if d_type den = DT_REG then
        (if 0 \<le> pre_idx \<and> pre_idx < int (length arr)
         then read_loop rest (arr[nat pre_idx := Some (d_name den)]) (pre_idx + 1)
         else Inl BadAccess)
      else read_loop rest arr pre_idx)"

subsection \<open>One render pass\<close>

record row =
  row_y :: int
  row_x :: int
  row_no :: int
  row_text :: string
  row_reverse :: bool

text \<open>
  What one run of the inner \<^verbatim>\<open>for\<close> loop leaves behind: the rows printed, the value of
  \<^verbatim>\<open>end_page\<close>, whether the loop stopped the session, and (for the safety claim only) the
  indices at which \<^verbatim>\<open>arr\<close> was read, in order.
\<close>

record pass =
  drawn :: "row list"
  probed :: "int list"
  flag :: int
  stopped :: "fault option"

text \<open>
  The four \<^verbatim>\<open>mvwprintw\<close> calls for the number overwrite one another; the last one that runs
  decides the column.
\<close>

definition index_column :: "int \<Rightarrow> int" where
  "index_column n = (if n > 999 then 1 else if n > 99 then 2 else if n > 9 then 3 else 4)"

function render_loop :: "string option list \<Rightarrow> int \<Rightarrow> int \<Rightarrow> int \<Rightarrow> int \<Rightarrow> int \<Rightarrow> pass" where
  "render_loop arr run pg endp new_idx xw =
     (if new_idx < pg + 10 then
        (case arr_at arr new_idx of
           None \<Rightarrow> \<lparr>drawn = [], probed = [new_idx], flag = endp, stopped = Some BadAccess\<rparr>
         | Some None \<Rightarrow> \<lparr>drawn = [], probed = [new_idx], flag = 1, stopped = None\<rparr>
         | Some (Some name) \<Rightarrow>
             (let r = \<lparr>row_y = xw + 3, row_x = index_column (new_idx + 1), row_no = new_idx + 1,
                       row_text = name, row_reverse = (new_idx = run)\<rparr>
              in if new_idx + 1 > 9999
                 then \<lparr>drawn = [r], probed = [new_idx], flag = endp, stopped = Some OutOfRange\<rparr>
                 else
                   (case arr_at arr (new_idx + 1) of
                      None \<Rightarrow> \<lparr>drawn = [r], probed = [new_idx, new_idx + 1], flag = endp,
                                stopped = Some BadAccess\<rparr>
                    | Some None \<Rightarrow> \<lparr>drawn = [r], probed = [new_idx, new_idx + 1], flag = 1,
                                     stopped = None\<rparr>
                    | Some (Some nxt) \<Rightarrow>
                        (let p = render_loop arr run pg endp (new_idx + 1) (xw + 1)
                         in p\<lparr>drawn := r # drawn p,
                              probed := new_idx # (new_idx + 1) # probed p\<rparr>))))
      else \<lparr>drawn = [], probed = [], flag = endp, stopped = None\<rparr>)"
  by pat_completeness auto
termination
  by (relation "measure (\<lambda>(arr, run, pg, endp, new_idx, xw). nat (pg + 10 - new_idx))") auto

declare render_loop.simps [simp del]

subsection \<open>The navigation state and the keys\<close>

record nav =
  xs :: int
  run_idx :: int
  end_page :: int

datatype key = KEY_UP | KEY_DOWN | KEY_RIGHT | KEY_LEFT | KEY_BACKSPACE | NEWLINE | OTHER

text \<open>The \<^verbatim>\<open>switch (ch)\<close>; \<open>None\<close> is the \<^verbatim>\<open>_Exit(EXIT_SUCCESS)\<close> of \<^verbatim>\<open>KEY_BACKSPACE\<close>.\<close>

fun switch_ch :: "int \<Rightarrow> nav \<Rightarrow> key \<Rightarrow> nav option" where
  "switch_ch pre_idx st KEY_UP =
     Some (let r = run_idx st - 1 in st\<lparr>run_idx := (if r < 0 then 0 else r)\<rparr>)"
| "switch_ch pre_idx st KEY_DOWN =
     Some (let r = run_idx st + 1 in st\<lparr>run_idx := (if r \<ge> pre_idx then pre_idx - 1 else r)\<rparr>)"
| "switch_ch pre_idx st KEY_RIGHT =
     Some (if end_page st = 0 then st\<lparr>xs := xs st + 10, run_idx := xs st + 10\<rparr> else st)"
| "switch_ch pre_idx st KEY_LEFT =
     Some (if xs st > 0 then st\<lparr>xs := xs st - 10, run_idx := xs st - 10, end_page := 0\<rparr> else st)"
| "switch_ch pre_idx st KEY_BACKSPACE = None"
| "switch_ch pre_idx st NEWLINE = Some st"
| "switch_ch pre_idx st OTHER = Some st"

subsection \<open>The session\<close>

datatype outcome = Chosen string | Cancelled | NoConfigs | Failed fault | Waiting nav

record session =
  passes :: "pass list"
  errout :: "string list"
  result :: outcome

definition msg_out_of_range :: string where
  "msg_out_of_range = ''emubox: out of range.'' @ [CHR 0x0A]"

definition msg_no_configs :: string where
  "msg_no_configs = ''emubox: no configs are available.'' @ [CHR 0x0A]"

text \<open>
  After the loop: \<^verbatim>\<open>arr[run_idx]\<close> is the configuration that is launched. (The \<^verbatim>\<open>stat\<close> of
  the file and the launch itself belong to the file system and to 86Box.)
\<close>

definition selected :: "string option list \<Rightarrow> nav \<Rightarrow> outcome" where
  "selected arr st =
     (case arr_at arr (run_idx st) of Some (Some name) \<Rightarrow> Chosen name | _ \<Rightarrow> Failed BadAccess)"

fun main_loop :: "string option list \<Rightarrow> int \<Rightarrow> nav \<Rightarrow> key list \<Rightarrow> session" where
  "main_loop arr pre_idx st [] =
     (let p = render_loop arr (run_idx st) (xs st) (end_page st) (xs st) 0 in
      case stopped p of
        Some f \<Rightarrow> \<lparr>passes = [p], errout = (if f = OutOfRange then [msg_out_of_range] else []),
                   result = Failed f\<rparr>
      | None \<Rightarrow> \<lparr>passes = [p], errout = [], result = Waiting (st\<lparr>end_page := flag p\<rparr>)\<rparr>)"
| "main_loop arr pre_idx st (ch # rest) =
     (let p = render_loop arr (run_idx st) (xs st) (end_page st) (xs st) 0 in
      case stopped p of
        Some f \<Rightarrow> \<lparr>passes = [p], errout = (if f = OutOfRange then [msg_out_of_range] else []),
                   result = Failed f\<rparr>
      | None \<Rightarrow>
          (case switch_ch pre_idx (st\<lparr>end_page := flag p\<rparr>) ch of
             None \<Rightarrow> \<lparr>passes = [p], errout = [], result = Cancelled\<rparr>
           | Some st' \<Rightarrow>
               if ch = NEWLINE then \<lparr>passes = [p], errout = [], result = selected arr st'\<rparr>
               else (let s = main_loop arr pre_idx st' rest in s\<lparr>passes := p # passes s\<rparr>)))"

text \<open>
  The entry lister of the specification is the first part of \<^verbatim>\<open>emu_select_list\<close>: the sizing
  pass, the allocation, the loop that copies the names, and the call of \<^verbatim>\<open>qsort\<close>. Its result is
  what the first \<^verbatim>\<open>pre_idx\<close> slots of \<^verbatim>\<open>arr\<close> hold after that call.
\<close>

definition list_entries :: "dirent list \<Rightarrow> fault + string option list" where
  "list_entries dents =
     (let clinfo = emu_content_len dents in
      case read_loop dents (replicate (name_sz clinfo + 1) None) 0 of
        Inl f \<Rightarrow> Inl f
      | Inr (arr, pre_idx) \<Rightarrow> Inr (take (nat pre_idx) (qsort arr (nat pre_idx) qsort_compare)))"

definition emu_select_list :: "dirent list \<Rightarrow> key list \<Rightarrow> session" where
  "emu_select_list dents keys =
     (let clinfo = emu_content_len dents in
      case read_loop dents (replicate (name_sz clinfo + 1) None) 0 of
        Inl f \<Rightarrow> \<lparr>passes = [], errout = [], result = Failed f\<rparr>
      | Inr (arr, pre_idx) \<Rightarrow>
          if pre_idx = 0 then \<lparr>passes = [], errout = [msg_no_configs], result = NoConfigs\<rparr>
          else main_loop (qsort arr (nat pre_idx) qsort_compare) pre_idx
                 \<lparr>xs = 0, run_idx = 0, end_page = 0\<rparr> keys)"

subsection \<open>Vocabulary of the statements\<close>

text \<open>
  What \<^verbatim>\<open>readdir\<close> can deliver: a \<^verbatim>\<open>d_name\<close> is a non-empty C string, so it holds no NUL byte.
\<close>

definition nul_free :: "string \<Rightarrow> bool" where
  "nul_free s = (CHR 0x00 \<notin> set s)"

definition valid_dir :: "dirent list \<Rightarrow> bool" where
  "valid_dir dents = list_all (\<lambda>den. d_name den \<noteq> [] \<and> nul_free (d_name den)) dents"

text \<open>
  The names both \<^verbatim>\<open>readdir\<close> loops keep (not \<^verbatim>\<open>.\<close>, not \<^verbatim>\<open>..\<close>, regular files only), in
  enumeration order.
\<close>

definition read_names :: "dirent list \<Rightarrow> string list" where
  "read_names dents =
     map d_name
       (filter (\<lambda>den. d_name den \<noteq> ''.'' \<and> d_name den \<noteq> ''..'' \<and> d_type den = DT_REG) dents)"

text \<open>
  The entry lister as the specification words it: the qualifying names, sorted ascending in
  the byte-wise lexicographic order (the order of \<open>char list\<close> built on the order of bytes).
\<close>

definition list_entries_spec :: "dirent list \<Rightarrow> string list" where
  "list_entries_spec dents = sort (read_names dents)"

text \<open>
  The pointer array as the loop sees it (lemma \<open>emu_select_list_valid\<close> shows that the code
  computes exactly this array): the sorted names, then the slots \<^verbatim>\<open>calloc\<close> zeroed.
\<close>

definition menu_arr :: "dirent list \<Rightarrow> string option list" where
  "menu_arr dents =
     map Some (list_entries_spec dents) @
     replicate (name_sz (emu_content_len dents) + 1 - length (read_names dents)) None"

text \<open>
  The invariant of the loop head, for \<open>n\<close> entries, and what holds in addition when a render
  pass has completed and the session waits for a key.
\<close>

definition nav_inv :: "int \<Rightarrow> nav \<Rightarrow> bool" where
  "nav_inv n st =
     (0 \<le> xs st \<and> xs st < n \<and> xs st mod 10 = 0 \<and> 0 \<le> run_idx st \<and> run_idx st < n \<and>
      (end_page st = 0 \<or> (end_page st = 1 \<and> n \<le> xs st + 10)))"

definition browsing :: "int \<Rightarrow> nav \<Rightarrow> bool" where
  "browsing n st =
     (nav_inv n st \<and> (end_page st = 1) = (n \<le> xs st + 10) \<and> min (xs st + 10) n \<le> 9999)"

text \<open>
  The page window as the specification words it: the cursor is one of the ten indices of the
  page being shown.
\<close>

definition on_page :: "nav \<Rightarrow> bool" where
  "on_page st = (xs st \<le> run_idx st \<and> run_idx st < xs st + 10)"

subsection \<open>Example directories\<close>

definition reg :: "string \<Rightarrow> dirent" where
  "reg n = \<lparr>d_name = n, d_type = DT_REG\<rparr>"

definition scenario_dir :: "dirent list" where
  "scenario_dir =
     [\<lparr>d_name = ''.'', d_type = DT_DIR\<rparr>, reg ''a.cfg'', reg ''z.cfg'',
      \<lparr>d_name = ''..'', d_type = DT_DIR\<rparr>, reg ''m.cfg'']"

definition twelve_dir :: "dirent list" where
  "twelve_dir = map (\<lambda>c. reg (c # ''.cfg'')) ''lkjihgfedcba''"

text \<open>Ten thousand regular files, named \<^verbatim>\<open>0000\<close> to \<^verbatim>\<open>9999\<close>.\<close>

definition decimal4 :: "nat \<Rightarrow> string" where
  "decimal4 i =
     [''0123456789'' ! (i div 1000 mod 10), ''0123456789'' ! (i div 100 mod 10),
      ''0123456789'' ! (i div 10 mod 10), ''0123456789'' ! (i mod 10)]"

definition empty_dir :: "dirent list" where
  "empty_dir =
     [\<lparr>d_name = ''.'', d_type = DT_DIR\<rparr>, \<lparr>d_name = ''..'', d_type = DT_DIR\<rparr>,
      \<lparr>d_name = ''roms'', d_type = DT_DIR\<rparr>, \<lparr>d_name = ''last.cfg'', d_type = DT_LNK\<rparr>]"

definition big_dir :: "dirent list" where
  "big_dir = map (\<lambda>i. reg (decimal4 i)) [0..<10000]"

section \<open>Sorting\<close>

lemma of_char_zero_iff: "(of_char c = (0::nat)) = (c = CHR 0x00)"
proof
  assume "of_char c = (0::nat)"
  then have "of_char c = (of_char (CHR 0x00) :: nat)" by simp
  then show "c = CHR 0x00" by (simp only: of_char_eq_iff)
qed simp

lemma strcmp_le_iff:
  "nul_free a \<Longrightarrow> nul_free b \<Longrightarrow> (strcmp a b \<le> 0) = (a \<le> b)"
proof (induction a b rule: strcmp.induct)
  case 1 show ?case by simp
next
  case (2 b bs) show ?case by simp
next
  case (3 a as)
  then have "a \<noteq> CHR 0x00" by (auto simp: nul_free_def)
  then have "of_char a \<noteq> (0::nat)" by (simp add: of_char_zero_iff)
  then show ?case by simp
next
  case (4 a as b bs)
  then have "nul_free as" "nul_free bs" by (auto simp: nul_free_def)
  have "(int (of_char a) - int (of_char b) \<le> 0) = (a < b)" if "a \<noteq> b"
  proof -
    have "(a < b) = (a \<le> b)" using that by (simp add: less_le)
    also have "\<dots> = (of_char a \<le> (of_char b :: nat))" by (rule less_eq_char_def)
    finally show ?thesis by simp
  qed
  with 4 \<open>nul_free as\<close> \<open>nul_free bs\<close> show ?case by auto
qed

lemma insert_by_strcmp:
  "nul_free x \<Longrightarrow> list_all nul_free ys \<Longrightarrow> insert_by strcmp x ys = insort x ys"
  by (induction ys) (auto simp: strcmp_le_iff)

lemma isort_strcmp:
  "list_all nul_free ns \<Longrightarrow> foldr (insert_by strcmp) ns [] = sort ns"
proof (induction ns)
  case Nil show ?case by simp
next
  case (Cons n ns)
  then have "list_all nul_free (sort ns)" by (simp add: list_all_iff)
  with Cons show ?case by (simp add: insert_by_strcmp sort_key_def[symmetric])
qed

lemma insert_by_Some:
  "insert_by qsort_compare (Some x) (map Some ys) = map Some (insert_by strcmp x ys)"
  by (induction ys) auto

lemma isort_Some:
  "foldr (insert_by qsort_compare) (map Some ns) [] = map Some (foldr (insert_by strcmp) ns [])"
  by (induction ns) (auto simp: insert_by_Some)

lemma qsort_names:
  "list_all nul_free ns \<Longrightarrow>
   qsort (map Some ns @ replicate k None) (length ns) qsort_compare = map Some (sort ns) @ replicate k None"
  by (simp add: qsort_def isort_Some isort_strcmp)


section \<open>Loading the names\<close>

lemma read_names_Cons:
  "read_names (den # rest) =
     (if d_name den \<noteq> ''.'' \<and> d_name den \<noteq> ''..'' \<and> d_type den = DT_REG
      then d_name den # read_names rest else read_names rest)"
  by (simp add: read_names_def)

lemma read_names_Nil: "read_names [] = []"
  by (simp add: read_names_def)

lemma name_sz_content_len_loop:
  "name_sz (content_len_loop dents clinfo) = name_sz clinfo + sum_list (map length (read_names dents))"
  by (induction dents arbitrary: clinfo) (auto simp: read_names_Cons read_names_Nil Let_def)

lemma name_sz_emu_content_len:
  "name_sz (emu_content_len dents) = sum_list (map length (read_names dents))"
  by (simp add: emu_content_len_def Let_def name_sz_content_len_loop)

lemma valid_dir_Cons: "valid_dir (den # rest) = ((d_name den \<noteq> [] \<and> nul_free (d_name den)) \<and> valid_dir rest)"
  by (simp add: valid_dir_def)

lemma length_le_name_weight:
  "valid_dir dents \<Longrightarrow> length (read_names dents) \<le> sum_list (map length (read_names dents))"
proof (induction dents)
  case Nil show ?case by (simp add: read_names_Nil)
next
  case (Cons den rest)
  then obtain c cs where "d_name den = c # cs"
    by (cases "d_name den") (auto simp: valid_dir_Cons)
  with Cons show ?case by (auto simp: read_names_Cons valid_dir_Cons)
qed

lemma valid_dir_names: "valid_dir dents \<Longrightarrow> list_all (\<lambda>n. n \<noteq> [] \<and> nul_free n) (read_names dents)"
  by (induction dents) (auto simp: read_names_Cons read_names_Nil valid_dir_Cons)

lemma store_next:
  "(map Some pre @ None # replicate k None)[length pre := Some n] = map Some (pre @ [n]) @ replicate k None"
  by (simp add: list_update_append)

lemma read_loop_fill:
  "length (read_names rest) \<le> k \<Longrightarrow>
   read_loop rest (map Some pre @ replicate k None) (int (length pre)) =
     Inr (map Some (pre @ read_names rest) @ replicate (k - length (read_names rest)) None,
          int (length pre + length (read_names rest)))"
proof (induction rest arbitrary: pre k)
  case Nil show ?case by (simp add: read_names_Nil)
next
  case (Cons den rest)
  show ?case
  proof (cases "d_name den \<noteq> ''.'' \<and> d_name den \<noteq> ''..'' \<and> d_type den = DT_REG")
    case False
    with Cons.prems have "length (read_names rest) \<le> k" by (simp add: read_names_Cons)
    from Cons.IH [OF this, of pre] False show ?thesis by (auto simp: read_names_Cons)
  next
    case True
    with Cons.prems obtain k' where k: "k = Suc k'" and le: "length (read_names rest) \<le> k'"
      by (cases k) (auto simp: read_names_Cons)
    from Cons.IH [OF le, of "pre @ [d_name den]"] True show ?thesis
      by (simp add: read_names_Cons k store_next ac_simps del: map_append)
  qed
qed

lemma read_loop_valid_dir:
  assumes "valid_dir dents"
  shows "read_loop dents (replicate (name_sz (emu_content_len dents) + 1) None) 0 =
           Inr (map Some (read_names dents) @
                  replicate (name_sz (emu_content_len dents) + 1 - length (read_names dents)) None,
                int (length (read_names dents)))"
proof -
  have "length (read_names dents) \<le> name_sz (emu_content_len dents) + 1"
    using length_le_name_weight [OF assms] by (simp add: name_sz_emu_content_len)
  from read_loop_fill [OF this, of "[]"] show ?thesis by simp
qed


section \<open>The render pass over the loaded array\<close>

lemma arr_at_name:
  "0 \<le> i \<Longrightarrow> i < int (length ns) \<Longrightarrow>
   arr_at (map Some ns @ replicate k None) i = Some (Some (ns ! nat i))"
  by (simp add: arr_at_def nth_append)

lemma arr_at_sentinel:
  "0 < k \<Longrightarrow> arr_at (map Some ns @ replicate k None) (int (length ns)) = Some None"
  by (simp add: arr_at_def nth_append)

lemma render_loop_names:
  assumes k: "0 < k"
  shows "0 \<le> i \<Longrightarrow> i < int (length ns) \<Longrightarrow>
     stopped (render_loop (map Some ns @ replicate k None) run pg endp i xw) =
       (if i < pg + 10 \<and> 9999 < min (pg + 10) (int (length ns)) then Some OutOfRange else None) \<and>
     flag (render_loop (map Some ns @ replicate k None) run pg endp i xw) =
       (if i < pg + 10 \<and> min (pg + 10) (int (length ns)) \<le> 9999 \<and> int (length ns) \<le> pg + 10
        then 1 else endp) \<and>
     set (probed (render_loop (map Some ns @ replicate k None) run pg endp i xw)) \<subseteq>
       {i .. min (pg + 10) (int (length ns))}"
proof (induction "nat (pg + 10 - i)" arbitrary: i xw)
  case 0
  then have "\<not> i < pg + 10" by simp
  then have "render_loop (map Some ns @ replicate k None) run pg endp i xw =
      \<lparr>drawn = [], probed = [], flag = endp, stopped = None\<rparr>"
    by (subst render_loop.simps) simp
  with \<open>\<not> i < pg + 10\<close> show ?case by simp
next
  case (Suc n)
  let ?arr = "map Some ns @ replicate k None"
  let ?N = "int (length ns)"
  from Suc have lt: "i < pg + 10" by simp
  have here: "arr_at ?arr i = Some (Some (ns ! nat i))"
    using Suc.prems by (rule arr_at_name)
  show ?case
  proof (cases "i + 1 > 9999")
    case True
    have eq: "render_loop ?arr run pg endp i xw =
        \<lparr>drawn = [\<lparr>row_y = xw + 3, row_x = index_column (i + 1), row_no = i + 1,
                    row_text = ns ! nat i, row_reverse = (i = run)\<rparr>],
         probed = [i], flag = endp, stopped = Some OutOfRange\<rparr>"
      using lt here True by (subst render_loop.simps) (simp add: Let_def)
    have m: "9999 < min (pg + 10) ?N" using lt True Suc.prems by simp
    have i: "i \<le> min (pg + 10) ?N" using lt Suc.prems by simp
    from m i lt show ?thesis unfolding eq by (simp add: min_le_iff_disj)
  next
    case small: False
    show ?thesis
    proof (cases "i + 1 < ?N")
      case True
      then have nxt: "arr_at ?arr (i + 1) = Some (Some (ns ! nat (i + 1)))"
        using Suc.prems by (intro arr_at_name) auto
      have eq: "render_loop ?arr run pg endp i xw =
          (render_loop ?arr run pg endp (i + 1) (xw + 1))
            \<lparr>drawn := \<lparr>row_y = xw + 3, row_x = index_column (i + 1), row_no = i + 1,
                    row_text = ns ! nat i, row_reverse = (i = run)\<rparr> #
                      drawn (render_loop ?arr run pg endp (i + 1) (xw + 1)),
             probed := i # (i + 1) # probed (render_loop ?arr run pg endp (i + 1) (xw + 1))\<rparr>"
        using lt here small nxt by (subst render_loop.simps) (simp add: Let_def)
      have n: "n = nat (pg + 10 - (i + 1))" using Suc.hyps(2) by simp
      have "0 \<le> i + 1" using Suc.prems by simp
      note IH = Suc.hyps(1) [OF n this True, of "xw + 1"]
      have i: "i \<le> min (pg + 10) ?N" "i + 1 \<le> min (pg + 10) ?N" using lt True by simp_all
      show ?thesis
      proof (cases "i + 1 < pg + 10")
        case True
        with IH lt i show ?thesis unfolding eq by auto
      next
        case False
        then have "pg + 10 < ?N" "pg + 10 \<le> 9999" using True lt small by simp_all
        with IH lt i False show ?thesis unfolding eq by auto
      qed
    next
      case False
      with Suc.prems have N: "i + 1 = ?N" by simp
      then have nxt: "arr_at ?arr (i + 1) = Some None" using k by (simp add: arr_at_sentinel)
      have eq: "render_loop ?arr run pg endp i xw =
        \<lparr>drawn = [\<lparr>row_y = xw + 3, row_x = index_column (i + 1), row_no = i + 1,
                    row_text = ns ! nat i, row_reverse = (i = run)\<rparr>],
         probed = [i, i + 1], flag = 1, stopped = None\<rparr>"
        using lt here small nxt by (subst render_loop.simps) (simp add: Let_def)
      have m: "min (pg + 10) ?N = i + 1" using lt N by simp
      from lt small show ?thesis unfolding eq m by (simp add: N [symmetric])
    qed
  qed
qed


lemma render_at:
  assumes "0 < k" "nav_inv (int (length ns)) st"
  shows "stopped (render_loop (map Some ns @ replicate k None) (run_idx st) (xs st) (end_page st) (xs st) 0) =
           (if 9999 < min (xs st + 10) (int (length ns)) then Some OutOfRange else None)"
    and "flag (render_loop (map Some ns @ replicate k None) (run_idx st) (xs st) (end_page st) (xs st) 0) =
           (if min (xs st + 10) (int (length ns)) \<le> 9999 \<and> int (length ns) \<le> xs st + 10
            then 1 else end_page st)"
    and "set (probed (render_loop (map Some ns @ replicate k None) (run_idx st) (xs st) (end_page st) (xs st) 0))
           \<subseteq> {xs st .. min (xs st + 10) (int (length ns))}"
proof -
  from assms(2) have "0 \<le> xs st" "xs st < int (length ns)" by (simp_all add: nav_inv_def)
  from render_loop_names [OF assms(1) this, of "run_idx st" "xs st" "end_page st" 0]
  show "stopped (render_loop (map Some ns @ replicate k None) (run_idx st) (xs st) (end_page st) (xs st) 0) =
           (if 9999 < min (xs st + 10) (int (length ns)) then Some OutOfRange else None)"
    and "flag (render_loop (map Some ns @ replicate k None) (run_idx st) (xs st) (end_page st) (xs st) 0) =
           (if min (xs st + 10) (int (length ns)) \<le> 9999 \<and> int (length ns) \<le> xs st + 10
            then 1 else end_page st)"
    and "set (probed (render_loop (map Some ns @ replicate k None) (run_idx st) (xs st) (end_page st) (xs st) 0))
           \<subseteq> {xs st .. min (xs st + 10) (int (length ns))}"
    by simp_all
qed

lemma browsing_after_render:
  assumes "0 < k" "nav_inv (int (length ns)) st"
    and "stopped (render_loop (map Some ns @ replicate k None) (run_idx st) (xs st) (end_page st) (xs st) 0) = None"
  shows "browsing (int (length ns))
           (st\<lparr>end_page := flag (render_loop (map Some ns @ replicate k None) (run_idx st) (xs st) (end_page st) (xs st) 0)\<rparr>)"
proof -
  have "\<not> 9999 < min (xs st + 10) (int (length ns))"
    using assms(3) unfolding render_at(1) [OF assms(1,2)]
    by (cases "9999 < min (xs st + 10) (int (length ns))") simp_all
  then have small: "min (xs st + 10) (int (length ns)) \<le> 9999" by linarith
  show ?thesis
    unfolding render_at(2) [OF assms(1,2)] using small assms(2)
    by (auto simp: browsing_def nav_inv_def)
qed

lemma page_back: "0 < (x::int) \<Longrightarrow> x mod 10 = 0 \<Longrightarrow> 0 \<le> x - 10 \<and> (x - 10) mod 10 = 0"
  by presburger

lemma page_forth: "(x::int) mod 10 = 0 \<Longrightarrow> (x + 10) mod 10 = 0"
  by presburger

lemma switch_ch_inv:
  assumes "browsing n st" "switch_ch n st ch = Some st'"
  shows "nav_inv n st'"
proof (cases ch)
  case KEY_UP
  with assms show ?thesis by (auto simp: browsing_def nav_inv_def Let_def)
next
  case KEY_DOWN
  with assms show ?thesis by (auto simp: browsing_def nav_inv_def Let_def)
next
  case KEY_RIGHT
  show ?thesis
  proof (cases "end_page st = 0")
    case True
    with assms KEY_RIGHT have st': "st' = st\<lparr>xs := xs st + 10, run_idx := xs st + 10\<rparr>" by simp
    from assms(1) True have "xs st + 10 < n" "0 \<le> xs st" "xs st mod 10 = 0"
      by (auto simp: browsing_def nav_inv_def)
    with True page_forth [of "xs st"] show ?thesis by (simp add: st' nav_inv_def)
  next
    case False
    with assms KEY_RIGHT show ?thesis by (simp add: browsing_def)
  qed
next
  case KEY_LEFT
  show ?thesis
  proof (cases "0 < xs st")
    case True
    with assms KEY_LEFT have st': "st' = st\<lparr>xs := xs st - 10, run_idx := xs st - 10, end_page := 0\<rparr>"
      by simp
    from assms(1) have "xs st < n" "xs st mod 10 = 0" by (auto simp: browsing_def nav_inv_def)
    with True page_back [of "xs st"] show ?thesis by (simp add: st' nav_inv_def)
  next
    case False
    with assms KEY_LEFT show ?thesis by (simp add: browsing_def)
  qed
next
  case KEY_BACKSPACE
  with assms show ?thesis by simp
next
  case NEWLINE
  with assms show ?thesis by (simp add: browsing_def)
next
  case OTHER
  with assms show ?thesis by (simp add: browsing_def)
qed


section \<open>The main loop\<close>

lemma selected_not_waiting: "selected arr st \<noteq> Waiting st'"
  by (simp add: selected_def split: option.splits)

lemma main_loop_snoc:
  "result (main_loop arr n st keys) = Waiting st' \<Longrightarrow>
   result (main_loop arr n st (keys @ [ch])) =
     (case switch_ch n st' ch of
        None \<Rightarrow> Cancelled
      | Some st'' \<Rightarrow> if ch = NEWLINE then selected arr st'' else result (main_loop arr n st'' []))"
proof (induction keys arbitrary: st)
  case Nil
  then show ?case by (auto simp: Let_def split: option.splits)
next
  case (Cons c rest)
  then show ?case by (auto simp: Let_def selected_not_waiting split: option.splits if_splits)
qed

lemma main_loop_waiting:
  assumes k: "0 < k"
  shows "nav_inv (int (length ns)) st \<Longrightarrow>
         result (main_loop (map Some ns @ replicate k None) (int (length ns)) st keys) = Waiting st' \<Longrightarrow>
         browsing (int (length ns)) st'"
proof (induction keys arbitrary: st)
  case Nil
  from Nil(2) browsing_after_render [OF k Nil(1)] show ?case
    by (auto simp: Let_def split: option.splits)
next
  case (Cons c rest)
  let ?p = "render_loop (map Some ns @ replicate k None) (run_idx st) (xs st) (end_page st) (xs st) 0"
  from Cons.prems(2) have ok: "stopped ?p = None"
    by (auto simp: Let_def split: option.splits)
  from browsing_after_render [OF k Cons.prems(1) ok]
  have b: "browsing (int (length ns)) (st\<lparr>end_page := flag ?p\<rparr>)" .
  from Cons.prems(2) ok obtain st2 where
    sw: "switch_ch (int (length ns)) (st\<lparr>end_page := flag ?p\<rparr>) c = Some st2"
    and nl: "c \<noteq> NEWLINE"
    and rest: "result (main_loop (map Some ns @ replicate k None) (int (length ns)) st2 rest) = Waiting st'"
    by (auto simp: Let_def selected_not_waiting split: option.splits if_splits)
  from Cons.IH [OF switch_ch_inv [OF b sw] rest] show ?case .
qed

lemma selected_in_range:
  "0 \<le> run_idx st \<Longrightarrow> run_idx st < int (length ns) \<Longrightarrow>
   selected (map Some ns @ replicate k None) st = Chosen (ns ! nat (run_idx st))"
  by (simp add: selected_def arr_at_name)

lemma main_loop_passes:
  assumes k: "0 < k"
  shows "nav_inv (int (length ns)) st \<Longrightarrow>
         p \<in> set (passes (main_loop (map Some ns @ replicate k None) (int (length ns)) st keys)) \<Longrightarrow>
         stopped p \<noteq> Some BadAccess \<and> set (probed p) \<subseteq> {0 .. int (length ns)}"
proof (induction keys arbitrary: st)
  case Nil
  let ?p = "render_loop (map Some ns @ replicate k None) (run_idx st) (xs st) (end_page st) (xs st) 0"
  from Nil(2) have "p = ?p" by (auto simp: Let_def split: option.splits)
  moreover from Nil(1) have "0 \<le> xs st" by (simp add: nav_inv_def)
  ultimately show ?case using render_at(1,3) [OF k Nil(1)] by auto
next
  case (Cons c rest)
  let ?p = "render_loop (map Some ns @ replicate k None) (run_idx st) (xs st) (end_page st) (xs st) 0"
  from Cons.prems(1) have x: "0 \<le> xs st" by (simp add: nav_inv_def)
  have here: "stopped ?p \<noteq> Some BadAccess \<and> set (probed ?p) \<subseteq> {0 .. int (length ns)}"
    using render_at(1,3) [OF k Cons.prems(1)] x by auto
  show ?case
  proof (cases "p = ?p")
    case True
    with here show ?thesis by simp
  next
    case False
    with Cons.prems(2) obtain st2 where
      ok: "stopped ?p = None"
      and sw: "switch_ch (int (length ns)) (st\<lparr>end_page := flag ?p\<rparr>) c = Some st2"
      and rest: "p \<in> set (passes (main_loop (map Some ns @ replicate k None) (int (length ns)) st2 rest))"
      by (auto simp: Let_def split: option.splits if_splits)
    from browsing_after_render [OF k Cons.prems(1) ok]
    have b: "browsing (int (length ns)) (st\<lparr>end_page := flag ?p\<rparr>)" .
    from Cons.IH [OF switch_ch_inv [OF b sw] rest] show ?thesis .
  qed
qed

lemma main_loop_no_bad_access:
  assumes k: "0 < k"
  shows "nav_inv (int (length ns)) st \<Longrightarrow>
         result (main_loop (map Some ns @ replicate k None) (int (length ns)) st keys) \<noteq> Failed BadAccess"
proof (induction keys arbitrary: st)
  case Nil
  with render_at(1) [OF k Nil(1)] show ?case
    by (auto simp: Let_def split: option.splits if_splits)
next
  case (Cons c rest)
  let ?p = "render_loop (map Some ns @ replicate k None) (run_idx st) (xs st) (end_page st) (xs st) 0"
  show ?case
  proof (cases "stopped ?p")
    case (Some f)
    with render_at(1) [OF k Cons.prems(1)] have "f = OutOfRange" by (auto split: if_splits)
    with Some show ?thesis by (simp add: Let_def)
  next
    case None
    from browsing_after_render [OF k Cons.prems(1) None]
    have b: "browsing (int (length ns)) (st\<lparr>end_page := flag ?p\<rparr>)" .
    show ?thesis
    proof (cases "switch_ch (int (length ns)) (st\<lparr>end_page := flag ?p\<rparr>) c")
      case no: None
      with None show ?thesis by (simp add: Let_def)
    next
      case (Some st2)
      from switch_ch_inv [OF b Some] have inv2: "nav_inv (int (length ns)) st2" .
      then have "selected (map Some ns @ replicate k None) st2 = Chosen (ns ! nat (run_idx st2))"
        by (intro selected_in_range) (simp_all add: nav_inv_def)
      with None Some Cons.IH [OF inv2] show ?thesis by (simp add: Let_def)
    qed
  qed
qed


section \<open>The session from the directory\<close>

lemma read_loop_none:
  "read_names dents = [] \<Longrightarrow> read_loop dents arr i = Inr (arr, i)"
  by (induction dents) (auto simp: read_names_Cons split: if_splits)

lemma menu_arr_shape:
  assumes "valid_dir dents"
  shows "\<exists>k>0. menu_arr dents = map Some (list_entries_spec dents) @ replicate k None"
proof -
  have "length (read_names dents) \<le> name_sz (emu_content_len dents)"
    using length_le_name_weight [OF assms] by (simp add: name_sz_emu_content_len)
  then have "0 < name_sz (emu_content_len dents) + 1 - length (read_names dents)" by simp
  then show ?thesis unfolding menu_arr_def by blast
qed

lemma length_list_entries_spec: "length (list_entries_spec dents) = length (read_names dents)"
  by (simp add: list_entries_spec_def)

lemma emu_select_list_valid:
  assumes "valid_dir dents"
  shows "emu_select_list dents keys =
           (if read_names dents = []
            then \<lparr>passes = [], errout = [msg_no_configs], result = NoConfigs\<rparr>
            else main_loop (menu_arr dents) (int (length (read_names dents)))
                   \<lparr>xs = 0, run_idx = 0, end_page = 0\<rparr> keys)"
proof -
  have "list_all nul_free (read_names dents)"
    using valid_dir_names [OF assms] by (simp add: list_all_iff)
  from qsort_names [OF this]
  have "qsort (map Some (read_names dents) @
                 replicate (name_sz (emu_content_len dents) + 1 - length (read_names dents)) None)
              (length (read_names dents)) qsort_compare = menu_arr dents"
    by (simp add: menu_arr_def list_entries_spec_def)
  then show ?thesis
    unfolding emu_select_list_def Let_def read_loop_valid_dir [OF assms] by simp
qed


lemma render_result:
  assumes "0 < k" "nav_inv (int (length ns)) st"
  shows "result (main_loop (map Some ns @ replicate k None) (int (length ns)) st []) =
           (if 9999 < min (xs st + 10) (int (length ns)) then Failed OutOfRange
            else Waiting (st\<lparr>end_page := (if int (length ns) \<le> xs st + 10 then 1 else end_page st)\<rparr>))"
  using render_at(1,2) [OF assms] by (auto simp: Let_def)

lemma rerender_same:
  assumes "0 < k" "browsing (int (length ns)) st" "nav_inv (int (length ns)) st'"
    and "xs st' = xs st" "end_page st' = end_page st"
  shows "result (main_loop (map Some ns @ replicate k None) (int (length ns)) st' []) = Waiting st'"
proof -
  from assms(2,4,5) have "min (xs st' + 10) (int (length ns)) \<le> 9999"
    and "(end_page st' = 1) = (int (length ns) \<le> xs st' + 10)"
    by (simp_all add: browsing_def)
  then show ?thesis unfolding render_result [OF assms(1,3)] by auto
qed

lemma session_waiting:
  assumes "valid_dir dents" "result (emu_select_list dents keys) = Waiting st"
  shows "read_names dents \<noteq> []" and "browsing (int (length (read_names dents))) st"
proof -
  from assms show ne: "read_names dents \<noteq> []"
    by (auto simp: emu_select_list_valid)
  from menu_arr_shape [OF assms(1)] obtain k where k: "0 < k"
    and arr: "menu_arr dents = map Some (list_entries_spec dents) @ replicate k None" by blast
  from ne have "nav_inv (int (length (list_entries_spec dents))) \<lparr>xs = 0, run_idx = 0, end_page = 0\<rparr>"
    by (simp add: nav_inv_def length_list_entries_spec)
  from main_loop_waiting [OF k this, of keys st] assms ne
  show "browsing (int (length (read_names dents))) st"
    by (simp add: emu_select_list_valid arr length_list_entries_spec)
qed

lemma session_snoc:
  assumes "valid_dir dents" "result (emu_select_list dents keys) = Waiting st"
  shows "result (emu_select_list dents (keys @ [ch])) =
     (case switch_ch (int (length (read_names dents))) st ch of
        None \<Rightarrow> Cancelled
      | Some st' \<Rightarrow>
          if ch = NEWLINE then selected (menu_arr dents) st'
          else result (main_loop (menu_arr dents) (int (length (read_names dents))) st' []))"
proof -
  from session_waiting(1) [OF assms] have ne: "read_names dents \<noteq> []" .
  with assms have "result (main_loop (menu_arr dents) (int (length (read_names dents)))
                     \<lparr>xs = 0, run_idx = 0, end_page = 0\<rparr> keys) = Waiting st"
    by (simp add: emu_select_list_valid)
  from main_loop_snoc [OF this, of ch] ne assms(1) show ?thesis
    by (simp add: emu_select_list_valid)
qed

lemma session_render:
  assumes "valid_dir dents" "nav_inv (int (length (read_names dents))) st"
  shows "result (main_loop (menu_arr dents) (int (length (read_names dents))) st []) =
           (if 9999 < min (xs st + 10) (int (length (read_names dents))) then Failed OutOfRange
            else Waiting (st\<lparr>end_page := (if int (length (read_names dents)) \<le> xs st + 10 then 1
                                          else end_page st)\<rparr>))"
proof -
  from menu_arr_shape [OF assms(1)] obtain k where k: "0 < k"
    and arr: "menu_arr dents = map Some (list_entries_spec dents) @ replicate k None" by blast
  from assms(2) have "nav_inv (int (length (list_entries_spec dents))) st"
    by (simp add: length_list_entries_spec)
  from render_result [OF k this] show ?thesis by (simp add: arr length_list_entries_spec)
qed

lemma session_rerender:
  assumes "valid_dir dents" "browsing (int (length (read_names dents))) st"
    and "nav_inv (int (length (read_names dents))) st'" "xs st' = xs st" "end_page st' = end_page st"
  shows "result (main_loop (menu_arr dents) (int (length (read_names dents))) st' []) = Waiting st'"
proof -
  from menu_arr_shape [OF assms(1)] obtain k where k: "0 < k"
    and arr: "menu_arr dents = map Some (list_entries_spec dents) @ replicate k None" by blast
  from assms(2,3) have "browsing (int (length (list_entries_spec dents))) st"
    "nav_inv (int (length (list_entries_spec dents))) st'"
    by (simp_all add: length_list_entries_spec)
  from rerender_same [OF k this assms(4,5)] show ?thesis by (simp add: arr length_list_entries_spec)
qed


lemma errout_main_loop:
  "errout (main_loop arr n st keys) =
     (if result (main_loop arr n st keys) = Failed OutOfRange then [msg_out_of_range] else [])"
proof (induction keys arbitrary: st)
  case Nil
  show ?case by (auto simp: Let_def split: option.splits)
next
  case (Cons c rest)
  have sel: "selected arr s \<noteq> Failed OutOfRange" for s
    by (simp add: selected_def split: option.splits)
  from Cons show ?case by (auto simp: Let_def sel split: option.splits)
qed

lemma main_loop_failed_prefix:
  "result (main_loop arr n st keys) = Failed f \<Longrightarrow> main_loop arr n st (keys @ later) = main_loop arr n st keys"
proof (induction keys arbitrary: st)
  case Nil
  then show ?case by (cases later) (auto simp: Let_def split: option.splits)
next
  case (Cons c rest)
  then show ?case by (auto simp: Let_def split: option.splits if_splits)
qed

lemma session_failed_prefix:
  assumes "valid_dir dents" "result (emu_select_list dents keys) = Failed f"
  shows "emu_select_list dents (keys @ later) = emu_select_list dents keys"
  using assms main_loop_failed_prefix [of "menu_arr dents" "int (length (read_names dents))"
      "\<lparr>xs = 0, run_idx = 0, end_page = 0\<rparr>" keys f later]
  by (auto simp: emu_select_list_valid split: if_splits)

lemma session_errout:
  assumes "valid_dir dents"
  shows "errout (emu_select_list dents keys) =
     (if result (emu_select_list dents keys) = Failed OutOfRange then [msg_out_of_range]
      else if result (emu_select_list dents keys) = NoConfigs then [msg_no_configs] else [])"
proof (cases "read_names dents = []")
  case True
  with assms show ?thesis by (simp add: emu_select_list_valid)
next
  case False
  have "result (main_loop arr n st ks) \<noteq> NoConfigs" for arr n st ks
  proof (induction ks arbitrary: st)
    case Nil show ?case by (auto simp: Let_def split: option.splits)
  next
    case (Cons c rest)
    have "selected arr s \<noteq> NoConfigs" for s by (simp add: selected_def split: option.splits)
    with Cons show ?case by (auto simp: Let_def split: option.splits)
  qed
  with False assms show ?thesis by (simp add: emu_select_list_valid errout_main_loop)
qed

lemma session_start:
  assumes "valid_dir dents" "read_names dents \<noteq> []"
  shows "result (emu_select_list dents []) =
           Waiting \<lparr>xs = 0, run_idx = 0,
                    end_page = (if int (length (read_names dents)) \<le> 10 then 1 else 0)\<rparr>"
proof -
  from assms(2) have inv: "nav_inv (int (length (read_names dents))) \<lparr>xs = 0, run_idx = 0, end_page = 0\<rparr>"
    by (simp add: nav_inv_def)
  from session_render [OF assms(1) inv] assms show ?thesis
    by (simp add: emu_select_list_valid)
qed

lemma right_presses:
  assumes "valid_dir dents"
  shows "10 * int j + 10 < int (length (read_names dents)) \<Longrightarrow> 10 * int j + 10 \<le> 9999 \<Longrightarrow>
         result (emu_select_list dents (replicate j KEY_RIGHT)) =
           Waiting \<lparr>xs = 10 * int j, run_idx = 10 * int j, end_page = 0\<rparr>"
proof (induction j)
  case 0
  then have "read_names dents \<noteq> []" by auto
  from session_start [OF assms this] 0 show ?case by simp
next
  case (Suc j)
  let ?N = "int (length (read_names dents))"
  let ?st = "\<lparr>xs = 10 * int j, run_idx = 10 * int j, end_page = 0\<rparr>"
  let ?st' = "\<lparr>xs = 10 * int j + 10, run_idx = 10 * int j + 10, end_page = 0\<rparr>"
  from Suc have w: "result (emu_select_list dents (replicate j KEY_RIGHT)) = Waiting ?st" by simp
  have inv: "nav_inv ?N ?st'" using Suc.prems by (simp add: nav_inv_def)
  have "result (emu_select_list dents (replicate j KEY_RIGHT @ [KEY_RIGHT])) =
          result (main_loop (menu_arr dents) ?N ?st' [])"
    unfolding session_snoc [OF assms w] by simp
  also have "\<dots> = Waiting ?st'"
    unfolding session_render [OF assms inv] using Suc.prems by simp
  finally show ?case by (simp add: replicate_append_same algebra_simps)
qed

section \<open>The example directories\<close>

lemma digit_not_nul: "''0123456789'' ! (d mod 10) \<noteq> CHR 0x00"
proof -
  have "''0123456789'' ! (d mod 10) \<in> set ''0123456789''" by (rule nth_mem) simp
  then show ?thesis by auto
qed

lemma decimal4_ok: "decimal4 i \<noteq> [] \<and> nul_free (decimal4 i) \<and> decimal4 i \<noteq> ''.'' \<and> decimal4 i \<noteq> ''..''"
  using digit_not_nul [of "i div 1000"] digit_not_nul [of "i div 100"]
    digit_not_nul [of "i div 10"] digit_not_nul [of i]
  by (auto simp: decimal4_def nul_free_def)

lemma valid_big_dir: "valid_dir big_dir"
  by (simp add: valid_dir_def big_dir_def list_all_iff reg_def decimal4_ok)

lemma read_names_regs:
  "\<forall>a \<in> set as. f a \<noteq> ''.'' \<and> f a \<noteq> ''..'' \<Longrightarrow> read_names (map (\<lambda>a. reg (f a)) as) = map f as"
  by (induction as) (auto simp: read_names_def reg_def)

lemma read_names_big_dir: "read_names big_dir = map decimal4 [0..<10000]"
  unfolding big_dir_def by (rule read_names_regs) (simp add: decimal4_ok)

lemma arr_at_entry_iff:
  "0 < k \<Longrightarrow> (\<exists>name. arr_at (map Some ns @ replicate k None) i = Some (Some name)) =
     (0 \<le> i \<and> i < int (length ns))"
  by (auto simp: arr_at_def nth_append)


section \<open>Independence of the enumeration order\<close>

lemma mset_read_names:
  assumes "mset dents' = mset dents"
  shows "mset (read_names dents') = mset (read_names dents)"
proof -
  have "mset (read_names ds) =
      image_mset d_name
        (filter_mset (\<lambda>den. d_name den \<noteq> ''.'' \<and> d_name den \<noteq> ''..'' \<and> d_type den = DT_REG) (mset ds))"
    for ds by (simp add: read_names_def)
  with assms show ?thesis by simp
qed

lemma valid_dir_mset: "mset dents' = mset dents \<Longrightarrow> valid_dir dents' = valid_dir dents"
  by (auto simp: valid_dir_def list_all_iff dest: mset_eq_setD)

lemma list_entries_spec_mset:
  assumes "mset dents' = mset dents"
  shows "list_entries_spec dents' = list_entries_spec dents"
  unfolding list_entries_spec_def
  by (rule properties_for_sort) (simp_all add: mset_read_names [OF assms])

lemma name_sz_mset:
  assumes "mset dents' = mset dents"
  shows "name_sz (emu_content_len dents') = name_sz (emu_content_len dents)"
proof -
  have "sum_list (map length (read_names dents')) = sum_mset (mset (map length (read_names dents')))"
    by (simp only: sum_mset_sum_list)
  also have "\<dots> = sum_mset (mset (map length (read_names dents)))"
    by (simp add: mset_read_names [OF assms])
  also have "\<dots> = sum_list (map length (read_names dents))"
    by (simp only: sum_mset_sum_list)
  finally show ?thesis by (simp add: name_sz_emu_content_len)
qed

lemma menu_arr_mset:
  assumes "mset dents' = mset dents"
  shows "menu_arr dents' = menu_arr dents"
  using mset_eq_length [OF mset_read_names [OF assms]]
  by (simp add: menu_arr_def list_entries_spec_mset [OF assms] name_sz_mset [OF assms])

lemma list_entries_valid:
  assumes "valid_dir dents"
  shows "list_entries dents = Inr (map Some (list_entries_spec dents))"
proof -
  have "list_all nul_free (read_names dents)"
    using valid_dir_names [OF assms] by (simp add: list_all_iff)
  from qsort_names [OF this]
  have "qsort (map Some (read_names dents) @
                 replicate (name_sz (emu_content_len dents) + 1 - length (read_names dents)) None)
              (length (read_names dents)) qsort_compare = menu_arr dents"
    by (simp add: menu_arr_def list_entries_spec_def)
  then show ?thesis
    unfolding list_entries_def Let_def read_loop_valid_dir [OF assms]
    by (simp add: menu_arr_def length_list_entries_spec)
qed

lemma strcmp_sorted:
  assumes "list_all nul_free ns"
  shows "sorted_wrt (\<lambda>a b. strcmp a b \<le> 0) ns = sorted ns"
proof -
  have le: "(strcmp a b \<le> 0) = (a \<le> b)" if "a \<in> set ns" "b \<in> set ns" for a b
    using assms that by (simp add: list_all_iff strcmp_le_iff)
  show ?thesis
  proof
    assume "sorted_wrt (\<lambda>a b. strcmp a b \<le> 0) ns"
    then show "sorted ns" by (rule sorted_wrt_mono_rel [rotated]) (simp add: le)
  next
    assume "sorted ns"
    then show "sorted_wrt (\<lambda>a b. strcmp a b \<le> 0) ns"
      by (rule sorted_wrt_mono_rel [rotated]) (simp add: le)
  qed
qed

lemma qsort_contract_unique:
  assumes "valid_dir dents" "mset ys = mset (read_names dents)"
    and "sorted_wrt (\<lambda>a b. strcmp a b \<le> 0) ys"
  shows "ys = list_entries_spec dents"
proof -
  have "set ys = set (read_names dents)" using assms(2) by (rule mset_eq_setD)
  with valid_dir_names [OF assms(1)] have "list_all nul_free ys" by (simp add: list_all_iff)
  with assms(3) have "sorted ys" by (simp add: strcmp_sorted)
  with assms(2) show ?thesis unfolding list_entries_spec_def
    by (intro properties_for_sort [symmetric])
qed

section \<open>What the render passes of a session read\<close>

lemma session_passes:
  assumes "valid_dir dents" "p \<in> set (passes (emu_select_list dents keys))"
  shows "stopped p \<noteq> Some BadAccess \<and> set (probed p) \<subseteq> {0 .. int (length (read_names dents))}"
proof (cases "read_names dents = []")
  case True
  with assms show ?thesis by (simp add: emu_select_list_valid)
next
  case False
  from menu_arr_shape [OF assms(1)] obtain k where k: "0 < k"
    and arr: "menu_arr dents = map Some (list_entries_spec dents) @ replicate k None" by blast
  from False have inv: "nav_inv (int (length (list_entries_spec dents))) \<lparr>xs = 0, run_idx = 0, end_page = 0\<rparr>"
    by (simp add: nav_inv_def length_list_entries_spec)
  from assms False
  have "p \<in> set (passes (main_loop (map Some (list_entries_spec dents) @ replicate k None)
            (int (length (list_entries_spec dents))) \<lparr>xs = 0, run_idx = 0, end_page = 0\<rparr> keys))"
    by (simp add: emu_select_list_valid arr length_list_entries_spec del: main_loop.simps)
  from main_loop_passes [OF k inv this] show ?thesis by (simp add: length_list_entries_spec)
qed

lemma session_no_bad_access:
  assumes "valid_dir dents"
  shows "result (emu_select_list dents keys) \<noteq> Failed BadAccess"
proof (cases "read_names dents = []")
  case True
  with assms show ?thesis by (simp add: emu_select_list_valid)
next
  case False
  from menu_arr_shape [OF assms(1)] obtain k where k: "0 < k"
    and arr: "menu_arr dents = map Some (list_entries_spec dents) @ replicate k None" by blast
  from False have inv: "nav_inv (int (length (list_entries_spec dents))) \<lparr>xs = 0, run_idx = 0, end_page = 0\<rparr>"
    by (simp add: nav_inv_def length_list_entries_spec)
  from main_loop_no_bad_access [OF k inv, of keys] assms False show ?thesis
    by (simp add: emu_select_list_valid arr length_list_entries_spec del: main_loop.simps)
qed

lemma menu_arr_at:
  assumes "valid_dir dents" "0 \<le> i" "i \<le> int (length (read_names dents))"
  shows "arr_at (menu_arr dents) i =
           (if i < int (length (read_names dents)) then Some (Some (list_entries_spec dents ! nat i))
            else Some None)"
proof -
  from menu_arr_shape [OF assms(1)] obtain k where k: "0 < k"
    and arr: "menu_arr dents = map Some (list_entries_spec dents) @ replicate k None" by blast
  show ?thesis
  proof (cases "i < int (length (read_names dents))")
    case True
    with assms(2) show ?thesis unfolding arr
      by (simp add: arr_at_name length_list_entries_spec)
  next
    case False
    with assms(3) have "i = int (length (list_entries_spec dents))"
      by (simp add: length_list_entries_spec)
    with arr_at_sentinel [OF k, of "list_entries_spec dents"] False show ?thesis
      unfolding arr by (simp add: length_list_entries_spec)
  qed
qed

lemma session_probes_page:
  assumes "valid_dir dents" "result (emu_select_list dents keys) = Waiting st"
  shows "set (probed (render_loop (menu_arr dents) (run_idx st) (xs st) (end_page st) (xs st) 0)) \<subseteq>
           {xs st .. min (xs st + 10) (int (length (read_names dents)))}"
proof -
  from menu_arr_shape [OF assms(1)] obtain k where k: "0 < k"
    and arr: "menu_arr dents = map Some (list_entries_spec dents) @ replicate k None" by blast
  from session_waiting(2) [OF assms] have "nav_inv (int (length (list_entries_spec dents))) st"
    by (simp add: browsing_def length_list_entries_spec)
  from render_at(3) [OF k this] show ?thesis by (simp add: arr length_list_entries_spec)
qed

section \<open>The claims\<close>

text \<open>
  C9. When the directory holds no qualifying entry (nothing but \<^verbatim>\<open>.\<close>, \<^verbatim>\<open>..\<close> and entries
  that are not regular files), reading the names succeeds with zero names (it is not an error of
  the listing), and the session prints \<^verbatim>\<open>emubox: no configs are available.\<close>, renders no frame
  and reads no key, whatever keys are waiting.
\<close>

theorem empty_selection:
  "read_names dents = [] \<Longrightarrow>
     read_loop dents (replicate (name_sz (emu_content_len dents) + 1) None) 0 =
       Inr (replicate (name_sz (emu_content_len dents) + 1) None, 0) \<and>
     emu_select_list dents keys = \<lparr>passes = [], errout = [msg_no_configs], result = NoConfigs\<rparr>"
  by (simp add: emu_select_list_def read_loop_none)

theorem empty_selection_witness:
  "read_names empty_dir = [] \<and>
   emu_select_list empty_dir [KEY_DOWN, NEWLINE] =
     \<lparr>passes = [], errout = [msg_no_configs], result = NoConfigs\<rparr>"
proof -
  have h: "read_names empty_dir = []" by (simp add: read_names_def empty_dir_def)
  from empty_selection [OF h, of "[KEY_DOWN, NEWLINE]"] h show ?thesis by simp
qed

text \<open>
  C5. The row moves change the cursor only, clamped to the whole entry set: \<^verbatim>\<open>KEY_UP\<close> sets
  \<open>run_idx\<close> to \<open>max (run_idx - 1) 0\<close> and \<^verbatim>\<open>KEY_DOWN\<close> to \<open>min (run_idx + 1) (N - 1)\<close>. This holds
  for the \<^verbatim>\<open>switch\<close> in every state, and in every state a session can wait in the frame drawn
  after the key leaves \<open>xs\<close> and \<open>end_page\<close> as they were: no wrap and no page change.
\<close>

theorem row_moves:
  assumes "valid_dir dents" and "result (emu_select_list dents keys) = Waiting st"
  shows "switch_ch n s KEY_UP = Some (s\<lparr>run_idx := max (run_idx s - 1) 0\<rparr>) \<and>
         switch_ch n s KEY_DOWN = Some (s\<lparr>run_idx := min (run_idx s + 1) (n - 1)\<rparr>) \<and>
         result (emu_select_list dents (keys @ [KEY_UP])) =
           Waiting (st\<lparr>run_idx := max (run_idx st - 1) 0\<rparr>) \<and>
         result (emu_select_list dents (keys @ [KEY_DOWN])) =
           Waiting (st\<lparr>run_idx := min (run_idx st + 1) (int (length (read_names dents)) - 1)\<rparr>)"
proof -
  let ?N = "int (length (read_names dents))"
  have up: "switch_ch m t KEY_UP = Some (t\<lparr>run_idx := max (run_idx t - 1) 0\<rparr>)" for m t
    by (simp add: Let_def max_def)
  have down: "switch_ch m t KEY_DOWN = Some (t\<lparr>run_idx := min (run_idx t + 1) (m - 1)\<rparr>)" for m t
    by (simp add: Let_def min_def)
  from session_waiting(2) [OF assms] have b: "browsing ?N st" .
  have inv_up: "nav_inv ?N (st\<lparr>run_idx := max (run_idx st - 1) 0\<rparr>)"
    using switch_ch_inv [OF b up] .
  have inv_down: "nav_inv ?N (st\<lparr>run_idx := min (run_idx st + 1) (?N - 1)\<rparr>)"
    using switch_ch_inv [OF b down] .
  have "result (emu_select_list dents (keys @ [KEY_UP])) =
          Waiting (st\<lparr>run_idx := max (run_idx st - 1) 0\<rparr>)"
    unfolding session_snoc [OF assms] up
    using session_rerender [OF assms(1) b inv_up] by simp
  moreover have "result (emu_select_list dents (keys @ [KEY_DOWN])) =
          Waiting (st\<lparr>run_idx := min (run_idx st + 1) (?N - 1)\<rparr>)"
    unfolding session_snoc [OF assms] down
    using session_rerender [OF assms(1) b inv_down] by simp
  ultimately show ?thesis using up down by blast
qed

theorem row_moves_witness:
  "valid_dir scenario_dir \<and>
   result (emu_select_list scenario_dir [KEY_DOWN]) = Waiting \<lparr>xs = 0, run_idx = 1, end_page = 1\<rparr> \<and>
   result (emu_select_list scenario_dir ([KEY_DOWN] @ [KEY_UP])) = Waiting \<lparr>xs = 0, run_idx = 0, end_page = 1\<rparr> \<and>
   result (emu_select_list scenario_dir ([KEY_DOWN] @ [KEY_DOWN])) = Waiting \<lparr>xs = 0, run_idx = 2, end_page = 1\<rparr>"
proof -
  have v: "valid_dir scenario_dir" by code_simp
  have w: "result (emu_select_list scenario_dir [KEY_DOWN]) = Waiting \<lparr>xs = 0, run_idx = 1, end_page = 1\<rparr>"
    by code_simp
  have n: "length (read_names scenario_dir) = 3" by code_simp
  from row_moves [OF v w] v w show ?thesis by (simp add: n)
qed


text \<open>
  C3. \<^verbatim>\<open>KEY_RIGHT\<close> does nothing when \<open>end_page\<close> is set; otherwise it adds exactly 10 to \<open>xs\<close> and
  puts the cursor on the new \<open>xs\<close>. This holds for the \<^verbatim>\<open>switch\<close> in every state. In every state
  a session can wait in, the session then waits in the same state again (no-op), or draws the
  page that starts 10 further with the cursor on its first row (unless that page reaches the
  entry at index 9999, where the render pass ends the session).
\<close>

theorem next_page:
  assumes "valid_dir dents" and "result (emu_select_list dents keys) = Waiting st"
  shows "switch_ch n s KEY_RIGHT =
           Some (if end_page s \<noteq> 0 then s else s\<lparr>xs := xs s + 10, run_idx := xs s + 10\<rparr>) \<and>
         (end_page st \<noteq> 0 \<longrightarrow>
            result (emu_select_list dents (keys @ [KEY_RIGHT])) = Waiting st) \<and>
         (end_page st = 0 \<longrightarrow>
            result (emu_select_list dents (keys @ [KEY_RIGHT])) =
              (if 9999 < min (xs st + 20) (int (length (read_names dents))) then Failed OutOfRange
               else Waiting \<lparr>xs = xs st + 10, run_idx = xs st + 10,
                             end_page = (if int (length (read_names dents)) \<le> xs st + 20 then 1 else 0)\<rparr>))"
proof -
  let ?N = "int (length (read_names dents))"
  from session_waiting(2) [OF assms] have b: "browsing ?N st" .
  have sw: "switch_ch m t KEY_RIGHT =
      Some (if end_page t \<noteq> 0 then t else t\<lparr>xs := xs t + 10, run_idx := xs t + 10\<rparr>)" for m t
    by simp
  have noop: "result (emu_select_list dents (keys @ [KEY_RIGHT])) = Waiting st" if "end_page st \<noteq> 0"
  proof -
    from b have "nav_inv ?N st" by (simp add: browsing_def)
    from session_rerender [OF assms(1) b this] that show ?thesis
      unfolding session_snoc [OF assms] sw by (simp del: main_loop.simps)
  qed
  have turn: "result (emu_select_list dents (keys @ [KEY_RIGHT])) =
              (if 9999 < min (xs st + 20) ?N then Failed OutOfRange
               else Waiting \<lparr>xs = xs st + 10, run_idx = xs st + 10,
                             end_page = (if ?N \<le> xs st + 20 then 1 else 0)\<rparr>)" if "end_page st = 0"
  proof -
    let ?st' = "st\<lparr>xs := xs st + 10, run_idx := xs st + 10\<rparr>"
    from that have sw': "switch_ch ?N st KEY_RIGHT = Some ?st'" by simp
    from switch_ch_inv [OF b sw'] have inv: "nav_inv ?N ?st'" .
    have "result (emu_select_list dents (keys @ [KEY_RIGHT])) = result (main_loop (menu_arr dents) ?N ?st' [])"
      unfolding session_snoc [OF assms] sw' by (simp del: main_loop.simps)
    also have "\<dots> = (if 9999 < min (xs st + 20) ?N then Failed OutOfRange
               else Waiting \<lparr>xs = xs st + 10, run_idx = xs st + 10,
                             end_page = (if ?N \<le> xs st + 20 then 1 else 0)\<rparr>)"
      unfolding session_render [OF assms(1) inv] using that by simp
    finally show ?thesis .
  qed
  from sw noop turn show ?thesis by blast
qed

theorem next_page_witness:
  "valid_dir twelve_dir \<and>
   result (emu_select_list twelve_dir []) = Waiting \<lparr>xs = 0, run_idx = 0, end_page = 0\<rparr> \<and>
   result (emu_select_list twelve_dir ([] @ [KEY_RIGHT])) = Waiting \<lparr>xs = 10, run_idx = 10, end_page = 1\<rparr> \<and>
   result (emu_select_list twelve_dir ([KEY_RIGHT] @ [KEY_RIGHT])) = Waiting \<lparr>xs = 10, run_idx = 10, end_page = 1\<rparr>"
proof -
  have v: "valid_dir twelve_dir" by code_simp
  have n: "length (read_names twelve_dir) = 12" by code_simp
  have w0: "result (emu_select_list twelve_dir []) = Waiting \<lparr>xs = 0, run_idx = 0, end_page = 0\<rparr>"
    by code_simp
  have w1: "result (emu_select_list twelve_dir [KEY_RIGHT]) = Waiting \<lparr>xs = 10, run_idx = 10, end_page = 1\<rparr>"
    by code_simp
  from next_page [OF v w0] next_page [OF v w1] v w0 show ?thesis by (simp add: n)
qed

text \<open>
  C4. \<^verbatim>\<open>KEY_LEFT\<close> does nothing when \<open>xs\<close> is 0; otherwise it subtracts exactly 10 from \<open>xs\<close>, puts
  the cursor on the new \<open>xs\<close> and clears \<open>end_page\<close>. This holds for the \<^verbatim>\<open>switch\<close> in every
  state (\<open>xs\<close> is never negative in a state a session waits in), and the frame drawn next leaves
  \<open>end_page\<close> cleared.
\<close>

theorem prev_page:
  assumes "valid_dir dents" and "result (emu_select_list dents keys) = Waiting st"
  shows "switch_ch n s KEY_LEFT =
           Some (if 0 < xs s then s\<lparr>xs := xs s - 10, run_idx := xs s - 10, end_page := 0\<rparr> else s) \<and>
         0 \<le> xs st \<and>
         (xs st = 0 \<longrightarrow> result (emu_select_list dents (keys @ [KEY_LEFT])) = Waiting st) \<and>
         (xs st \<noteq> 0 \<longrightarrow>
            result (emu_select_list dents (keys @ [KEY_LEFT])) =
              Waiting \<lparr>xs = xs st - 10, run_idx = xs st - 10, end_page = 0\<rparr>)"
proof -
  let ?N = "int (length (read_names dents))"
  from session_waiting(2) [OF assms] have b: "browsing ?N st" .
  then have inv: "nav_inv ?N st" by (simp add: browsing_def)
  then have pos: "0 \<le> xs st" by (simp add: nav_inv_def)
  have sw: "switch_ch m t KEY_LEFT =
      Some (if 0 < xs t then t\<lparr>xs := xs t - 10, run_idx := xs t - 10, end_page := 0\<rparr> else t)" for m t
    by simp
  have noop: "result (emu_select_list dents (keys @ [KEY_LEFT])) = Waiting st" if "xs st = 0"
    using session_rerender [OF assms(1) b inv] that
    unfolding session_snoc [OF assms] sw by (simp del: main_loop.simps)
  have prev: "result (emu_select_list dents (keys @ [KEY_LEFT])) =
              Waiting \<lparr>xs = xs st - 10, run_idx = xs st - 10, end_page = 0\<rparr>" if "xs st \<noteq> 0"
  proof -
    let ?st' = "st\<lparr>xs := xs st - 10, run_idx := xs st - 10, end_page := 0\<rparr>"
    from that pos have sw': "switch_ch ?N st KEY_LEFT = Some ?st'" by simp
    from switch_ch_inv [OF b sw'] have inv': "nav_inv ?N ?st'" .
    from b have "xs st < ?N" "min (xs st + 10) ?N \<le> 9999" by (simp_all add: browsing_def nav_inv_def)
    then have small: "\<not> 9999 < min (xs st - 10 + 10) ?N" "\<not> ?N \<le> xs st - 10 + 10" by simp_all
    have "result (emu_select_list dents (keys @ [KEY_LEFT])) = result (main_loop (menu_arr dents) ?N ?st' [])"
      unfolding session_snoc [OF assms] sw' by (simp del: main_loop.simps)
    also have "\<dots> = Waiting \<lparr>xs = xs st - 10, run_idx = xs st - 10, end_page = 0\<rparr>"
      unfolding session_render [OF assms(1) inv'] using small by simp
    finally show ?thesis .
  qed
  from sw pos noop prev show ?thesis by blast
qed

theorem prev_page_witness:
  "valid_dir twelve_dir \<and>
   result (emu_select_list twelve_dir [KEY_DOWN]) = Waiting \<lparr>xs = 0, run_idx = 1, end_page = 0\<rparr> \<and>
   result (emu_select_list twelve_dir ([KEY_DOWN] @ [KEY_LEFT])) = Waiting \<lparr>xs = 0, run_idx = 1, end_page = 0\<rparr> \<and>
   result (emu_select_list twelve_dir [KEY_RIGHT, KEY_DOWN]) = Waiting \<lparr>xs = 10, run_idx = 11, end_page = 1\<rparr> \<and>
   result (emu_select_list twelve_dir ([KEY_RIGHT, KEY_DOWN] @ [KEY_LEFT])) = Waiting \<lparr>xs = 0, run_idx = 0, end_page = 0\<rparr>"
proof -
  have v: "valid_dir twelve_dir" by code_simp
  have w0: "result (emu_select_list twelve_dir [KEY_DOWN]) = Waiting \<lparr>xs = 0, run_idx = 1, end_page = 0\<rparr>"
    by code_simp
  have w1: "result (emu_select_list twelve_dir [KEY_RIGHT, KEY_DOWN]) = Waiting \<lparr>xs = 10, run_idx = 11, end_page = 1\<rparr>"
    by code_simp
  from prev_page [OF v w0] prev_page [OF v w1] v w0 w1 show ?thesis by simp
qed


text \<open>
  C6. In every state a session can wait in, the cursor is an index of the entry set and the
  newline key ends the session with the entry under the cursor, \<open>Chosen (entries ! run_idx)\<close>. The
  scenario: a directory that enumerates \<^verbatim>\<open>a.cfg\<close>, \<^verbatim>\<open>z.cfg\<close>, \<^verbatim>\<open>m.cfg\<close> is listed as \<^verbatim>\<open>a.cfg\<close>,
  \<^verbatim>\<open>m.cfg\<close>, \<^verbatim>\<open>z.cfg\<close>; the session starts with the cursor on 0, one \<^verbatim>\<open>KEY_DOWN\<close> moves it to 1,
  and the newline key then chooses \<^verbatim>\<open>m.cfg\<close>.
\<close>

theorem confirm_chooses_cursor:
  assumes "valid_dir dents" and "result (emu_select_list dents keys) = Waiting st"
  shows "0 \<le> run_idx st \<and> run_idx st < int (length (list_entries_spec dents)) \<and>
         result (emu_select_list dents (keys @ [NEWLINE])) =
           Chosen (list_entries_spec dents ! nat (run_idx st)) \<and>
         read_names scenario_dir = [''a.cfg'', ''z.cfg'', ''m.cfg''] \<and>
         list_entries_spec scenario_dir = [''a.cfg'', ''m.cfg'', ''z.cfg''] \<and>
         result (emu_select_list scenario_dir []) = Waiting \<lparr>xs = 0, run_idx = 0, end_page = 1\<rparr> \<and>
         result (emu_select_list scenario_dir [KEY_DOWN]) = Waiting \<lparr>xs = 0, run_idx = 1, end_page = 1\<rparr> \<and>
         result (emu_select_list scenario_dir [KEY_DOWN, NEWLINE]) = Chosen ''m.cfg''"
proof -
  let ?N = "int (length (read_names dents))"
  from session_waiting(2) [OF assms] have "nav_inv ?N st" by (simp add: browsing_def)
  then have r: "0 \<le> run_idx st" "run_idx st < int (length (list_entries_spec dents))"
    by (simp_all add: nav_inv_def length_list_entries_spec)
  from menu_arr_shape [OF assms(1)] obtain k where
    arr: "menu_arr dents = map Some (list_entries_spec dents) @ replicate k None" by blast
  have "result (emu_select_list dents (keys @ [NEWLINE])) = selected (menu_arr dents) st"
    unfolding session_snoc [OF assms] by simp
  also have "\<dots> = Chosen (list_entries_spec dents ! nat (run_idx st))"
    unfolding arr using r by (rule selected_in_range)
  finally have general: "result (emu_select_list dents (keys @ [NEWLINE])) =
    Chosen (list_entries_spec dents ! nat (run_idx st))" .
  have s1: "read_names scenario_dir = [''a.cfg'', ''z.cfg'', ''m.cfg'']" by code_simp
  have s2: "list_entries_spec scenario_dir = [''a.cfg'', ''m.cfg'', ''z.cfg'']" by code_simp
  have s3: "result (emu_select_list scenario_dir []) = Waiting \<lparr>xs = 0, run_idx = 0, end_page = 1\<rparr>"
    by code_simp
  have s4: "result (emu_select_list scenario_dir [KEY_DOWN]) = Waiting \<lparr>xs = 0, run_idx = 1, end_page = 1\<rparr>"
    by code_simp
  have s5: "result (emu_select_list scenario_dir [KEY_DOWN, NEWLINE]) = Chosen ''m.cfg''"
    by code_simp
  from r general s1 s2 s3 s4 s5 show ?thesis by blast
qed

theorem confirm_chooses_cursor_witness:
  "valid_dir twelve_dir \<and>
   result (emu_select_list twelve_dir [KEY_RIGHT, KEY_DOWN]) = Waiting \<lparr>xs = 10, run_idx = 11, end_page = 1\<rparr> \<and>
   result (emu_select_list twelve_dir ([KEY_RIGHT, KEY_DOWN] @ [NEWLINE])) = Chosen ''l.cfg''"
proof -
  have v: "valid_dir twelve_dir" by code_simp
  have w: "result (emu_select_list twelve_dir [KEY_RIGHT, KEY_DOWN]) = Waiting \<lparr>xs = 10, run_idx = 11, end_page = 1\<rparr>"
    by code_simp
  have e: "list_entries_spec twelve_dir ! 11 = ''l.cfg''" by code_simp
  from confirm_chooses_cursor [OF v w] v w e show ?thesis by simp
qed

text \<open>
  C7. Whenever a render pass has completed and the session waits for a key, \<open>end_page\<close> is 1 if
  the entry count is at most \<open>xs + 10\<close> and 0 otherwise; and it is set exactly when the array holds
  no name at index \<open>xs + 10\<close>. So the flag found by probing for \<^verbatim>\<open>NULL\<close> equals the comparison of
  \<open>xs + 10\<close> with the entry count.
\<close>

theorem at_last_page_flag:
  assumes "valid_dir dents" and "result (emu_select_list dents keys) = Waiting st"
  shows "(end_page st = 1) = (int (length (read_names dents)) \<le> xs st + 10) \<and>
         (end_page st = 0) = (xs st + 10 < int (length (read_names dents))) \<and>
         (end_page st \<noteq> 0) = (\<nexists>name. arr_at (menu_arr dents) (xs st + 10) = Some (Some name))"
proof -
  let ?N = "int (length (read_names dents))"
  from session_waiting(2) [OF assms] have b: "browsing ?N st" .
  then have one: "(end_page st = 1) = (?N \<le> xs st + 10)" and "end_page st = 0 \<or> end_page st = 1"
    and pos: "0 \<le> xs st"
    by (auto simp: browsing_def nav_inv_def)
  then have zero: "(end_page st = 0) = (xs st + 10 < ?N)" by auto
  from menu_arr_shape [OF assms(1)] obtain k where k: "0 < k"
    and arr: "menu_arr dents = map Some (list_entries_spec dents) @ replicate k None" by blast
  have "(\<exists>name. arr_at (menu_arr dents) (xs st + 10) = Some (Some name)) = (xs st + 10 < ?N)"
    unfolding arr arr_at_entry_iff [OF k] using pos by (simp add: length_list_entries_spec)
  with zero have "(end_page st \<noteq> 0) = (\<nexists>name. arr_at (menu_arr dents) (xs st + 10) = Some (Some name))"
    by simp
  with one zero show ?thesis by blast
qed

theorem at_last_page_flag_witness:
  "valid_dir twelve_dir \<and>
   result (emu_select_list twelve_dir [KEY_DOWN]) = Waiting \<lparr>xs = 0, run_idx = 1, end_page = 0\<rparr> \<and>
   (0::int) + 10 < int (length (read_names twelve_dir)) \<and>
   result (emu_select_list twelve_dir [KEY_RIGHT]) = Waiting \<lparr>xs = 10, run_idx = 10, end_page = 1\<rparr> \<and>
   int (length (read_names twelve_dir)) \<le> 10 + 10"
proof -
  have v: "valid_dir twelve_dir" by code_simp
  have w0: "result (emu_select_list twelve_dir [KEY_DOWN]) = Waiting \<lparr>xs = 0, run_idx = 1, end_page = 0\<rparr>"
    by code_simp
  have w1: "result (emu_select_list twelve_dir [KEY_RIGHT]) = Waiting \<lparr>xs = 10, run_idx = 10, end_page = 1\<rparr>"
    by code_simp
  from at_last_page_flag [OF v w0] at_last_page_flag [OF v w1] v w0 w1 show ?thesis by simp
qed

text \<open>
  C1, as stated, fails: the row moves are clamped to the whole entry set, not to the page. With
  twelve entries, \<^verbatim>\<open>KEY_RIGHT\<close> then \<^verbatim>\<open>KEY_UP\<close> leaves the cursor on 9 while the page starts at 10,
  and ten \<^verbatim>\<open>KEY_DOWN\<close>s from the start leave the cursor on 10 while the page is 0 to 9.
\<close>

theorem page_window_counterexample:
  "result (emu_select_list twelve_dir [KEY_RIGHT, KEY_UP]) = Waiting \<lparr>xs = 10, run_idx = 9, end_page = 1\<rparr> \<and>
   \<not> on_page \<lparr>xs = 10, run_idx = 9, end_page = 1\<rparr> \<and>
   result (emu_select_list twelve_dir (replicate 10 KEY_DOWN)) = Waiting \<lparr>xs = 0, run_idx = 10, end_page = 0\<rparr> \<and>
   \<not> on_page \<lparr>xs = 0, run_idx = 10, end_page = 0\<rparr>"
proof -
  have a: "result (emu_select_list twelve_dir [KEY_RIGHT, KEY_UP]) = Waiting \<lparr>xs = 10, run_idx = 9, end_page = 1\<rparr>"
    by code_simp
  have b: "result (emu_select_list twelve_dir (replicate 10 KEY_DOWN)) = Waiting \<lparr>xs = 0, run_idx = 10, end_page = 0\<rparr>"
    by code_simp
  from a b show ?thesis by (simp add: on_page_def)
qed

text \<open>
  C1, amended. In every state a session over N entries can wait in, the cursor is an index of the
  entry set, \<open>0 \<le> run_idx \<le> N - 1\<close> (it need not lie on the page being shown), and the page start
  is a multiple of 10 below N. So no sequence of \<^verbatim>\<open>KEY_DOWN\<close> raises the cursor above \<open>N - 1\<close> and no
  \<^verbatim>\<open>KEY_UP\<close> lowers it below 0.
\<close>

theorem cursor_within_entries:
  assumes "valid_dir dents" and "result (emu_select_list dents keys) = Waiting st"
  shows "0 \<le> run_idx st \<and> run_idx st \<le> int (length (read_names dents)) - 1 \<and>
         0 \<le> xs st \<and> xs st < int (length (read_names dents)) \<and> xs st mod 10 = 0"
proof -
  from session_waiting(2) [OF assms] have "nav_inv (int (length (read_names dents))) st"
    by (simp add: browsing_def)
  then show ?thesis by (simp add: nav_inv_def)
qed

theorem cursor_within_entries_witness:
  "valid_dir twelve_dir \<and>
   result (emu_select_list twelve_dir [KEY_RIGHT, KEY_UP]) = Waiting \<lparr>xs = 10, run_idx = 9, end_page = 1\<rparr> \<and>
   (0::int) \<le> 9 \<and> 9 \<le> int (length (read_names twelve_dir)) - 1"
proof -
  have v: "valid_dir twelve_dir" by code_simp
  have w: "result (emu_select_list twelve_dir [KEY_RIGHT, KEY_UP]) = Waiting \<lparr>xs = 10, run_idx = 9, end_page = 1\<rparr>"
    by code_simp
  from cursor_within_entries [OF v w] v w show ?thesis by simp
qed


text \<open>
  C8. For a directory of file names (non-empty, NUL-free), the entry lister returns the qualifying
  names in ascending byte-wise lexicographic order (ascending for \<^verbatim>\<open>strcmp\<close>), a permutation of
  the names read; a directory that enumerates the same entries in another order gives the same
  list, and the same session.
\<close>

theorem list_entries_sorted_deterministic:
  assumes "valid_dir dents" and "mset dents' = mset dents"
  shows "list_entries dents = Inr (map Some (list_entries_spec dents)) \<and>
         mset (list_entries_spec dents) = mset (read_names dents) \<and>
         sorted (list_entries_spec dents) \<and>
         sorted_wrt (\<lambda>a b. strcmp a b \<le> 0) (list_entries_spec dents) \<and>
         list_entries dents' = list_entries dents \<and>
         emu_select_list dents' keys = emu_select_list dents keys"
proof -
  have v': "valid_dir dents'" using valid_dir_mset [OF assms(2)] assms(1) by simp
  have m: "mset (list_entries_spec dents) = mset (read_names dents)"
    and s: "sorted (list_entries_spec dents)"
    by (simp_all add: list_entries_spec_def)
  have "list_all nul_free (list_entries_spec dents)"
    using valid_dir_names [OF assms(1)] by (simp add: list_all_iff list_entries_spec_def)
  with s have c: "sorted_wrt (\<lambda>a b. strcmp a b \<le> 0) (list_entries_spec dents)"
    by (simp add: strcmp_sorted)
  have same: "list_entries dents' = list_entries dents"
    by (simp add: list_entries_valid [OF assms(1)] list_entries_valid [OF v']
        list_entries_spec_mset [OF assms(2)])
  have "read_names dents' = [] \<longleftrightarrow> read_names dents = []"
    using mset_read_names [OF assms(2)] by (metis mset_zero_iff)
  then have sess: "emu_select_list dents' keys = emu_select_list dents keys"
    using mset_eq_length [OF mset_read_names [OF assms(2)]]
    by (simp add: emu_select_list_valid [OF assms(1)] emu_select_list_valid [OF v']
        menu_arr_mset [OF assms(2)] del: main_loop.simps)
  from list_entries_valid [OF assms(1)] m s c same sess show ?thesis by blast
qed

theorem list_entries_sorted_deterministic_witness:
  "valid_dir scenario_dir \<and>
   mset (rev scenario_dir) = mset scenario_dir \<and>
   list_entries scenario_dir = Inr [Some ''a.cfg'', Some ''m.cfg'', Some ''z.cfg''] \<and>
   list_entries (rev scenario_dir) = Inr [Some ''a.cfg'', Some ''m.cfg'', Some ''z.cfg'']"
proof -
  have v: "valid_dir scenario_dir" by code_simp
  have m: "mset (rev scenario_dir) = mset scenario_dir" by simp
  have s: "list_entries_spec scenario_dir = [''a.cfg'', ''m.cfg'', ''z.cfg'']" by code_simp
  from list_entries_sorted_deterministic [OF v m] v s show ?thesis by simp
qed


text \<open>
  C2, as stated, fails: a directory of 10000 regular files (an entry at position 9999 exists) does
  not stop the session before the loop. The first page is drawn and the session waits for a
  key; with \<^verbatim>\<open>KEY_BACKSPACE\<close> it ends as \<open>Cancelled\<close> and nothing is printed.
\<close>

theorem big_dir_enters_loop:
  "length (read_names big_dir) = 10000 \<and>
   result (emu_select_list big_dir []) = Waiting \<lparr>xs = 0, run_idx = 0, end_page = 0\<rparr> \<and>
   result (emu_select_list big_dir [KEY_BACKSPACE]) = Cancelled \<and>
   errout (emu_select_list big_dir [KEY_BACKSPACE]) = []"
proof -
  have n: "length (read_names big_dir) = 10000" by (simp add: read_names_big_dir)
  then have ne: "read_names big_dir \<noteq> []" by auto
  from session_start [OF valid_big_dir ne]
  have w: "result (emu_select_list big_dir []) = Waiting \<lparr>xs = 0, run_idx = 0, end_page = 0\<rparr>"
    by (simp add: n)
  from session_snoc [OF valid_big_dir w, of KEY_BACKSPACE]
  have c: "result (emu_select_list big_dir [KEY_BACKSPACE]) = Cancelled" by simp
  with session_errout [OF valid_big_dir, of "[KEY_BACKSPACE]"]
  have "errout (emu_select_list big_dir [KEY_BACKSPACE]) = []" by simp
  with n w c show ?thesis by blast
qed

text \<open>
  C2, amended. The check for the index budget sits in the render loop. A session over any
  non-empty directory of file names draws its first page and waits for a key. From a state it
  waits in, a key other than newline that leaves the state \<open>st'\<close> is followed by a render pass of
  the page \<open>xs st'\<close>; when that page holds an entry at an index of 9999 or more
  (\<open>9999 < min (xs st' + 10) N\<close>) the session fails with \<open>OutOfRange\<close>, prints
  \<^verbatim>\<open>emubox: out of range.\<close> and reads no further key, and otherwise the pass completes and the
  session waits again. With 10000 files this happens at the 999th \<^verbatim>\<open>KEY_RIGHT\<close>.
\<close>

theorem out_of_range_at_render:
  assumes "valid_dir dents" and "result (emu_select_list dents keys) = Waiting st"
    and "switch_ch (int (length (read_names dents))) st ch = Some st'" and "ch \<noteq> NEWLINE"
  shows "result (emu_select_list dents []) =
           Waiting \<lparr>xs = 0, run_idx = 0,
                    end_page = (if int (length (read_names dents)) \<le> 10 then 1 else 0)\<rparr> \<and>
         (9999 < min (xs st' + 10) (int (length (read_names dents))) \<longrightarrow>
            result (emu_select_list dents (keys @ ch # later)) = Failed OutOfRange \<and>
            errout (emu_select_list dents (keys @ ch # later)) = [msg_out_of_range]) \<and>
         (min (xs st' + 10) (int (length (read_names dents))) \<le> 9999 \<longrightarrow>
            result (emu_select_list dents (keys @ [ch])) =
              Waiting (st'\<lparr>end_page := (if int (length (read_names dents)) \<le> xs st' + 10 then 1
                                            else end_page st')\<rparr>))"
proof -
  let ?N = "int (length (read_names dents))"
  from session_waiting [OF assms(1,2)] have ne: "read_names dents \<noteq> []" and b: "browsing ?N st" .
  from switch_ch_inv [OF b assms(3)] have inv: "nav_inv ?N st'" .
  have step: "result (emu_select_list dents (keys @ [ch])) = result (main_loop (menu_arr dents) ?N st' [])"
    unfolding session_snoc [OF assms(1,2)] using assms(3,4) by (simp del: main_loop.simps)
  have fail: "result (emu_select_list dents (keys @ ch # later)) = Failed OutOfRange \<and>
              errout (emu_select_list dents (keys @ ch # later)) = [msg_out_of_range]"
    if "9999 < min (xs st' + 10) ?N"
  proof -
    from step that have f: "result (emu_select_list dents (keys @ [ch])) = Failed OutOfRange"
      unfolding session_render [OF assms(1) inv] by simp
    from session_failed_prefix [OF assms(1) f, of later]
    have "emu_select_list dents (keys @ ch # later) = emu_select_list dents (keys @ [ch])" by simp
    with f session_errout [OF assms(1), of "keys @ [ch]"] show ?thesis by simp
  qed
  have go: "result (emu_select_list dents (keys @ [ch])) =
              Waiting (st'\<lparr>end_page := (if ?N \<le> xs st' + 10 then 1 else end_page st')\<rparr>)"
    if "min (xs st' + 10) ?N \<le> 9999"
  proof -
    from that have "\<not> 9999 < min (xs st' + 10) ?N" by linarith
    with step show ?thesis unfolding session_render [OF assms(1) inv] by simp
  qed
  from session_start [OF assms(1) ne] fail go show ?thesis by blast
qed

theorem out_of_range_at_render_witness:
  "valid_dir big_dir \<and>
   result (emu_select_list big_dir (replicate 998 KEY_RIGHT)) = Waiting \<lparr>xs = 9980, run_idx = 9980, end_page = 0\<rparr> \<and>
   switch_ch (int (length (read_names big_dir))) \<lparr>xs = 9980, run_idx = 9980, end_page = 0\<rparr> KEY_RIGHT =
     Some \<lparr>xs = 9990, run_idx = 9990, end_page = 0\<rparr> \<and>
   result (emu_select_list big_dir (replicate 998 KEY_RIGHT @ KEY_RIGHT # [NEWLINE])) = Failed OutOfRange \<and>
   errout (emu_select_list big_dir (replicate 998 KEY_RIGHT @ KEY_RIGHT # [NEWLINE])) = [msg_out_of_range] \<and>
   result (emu_select_list big_dir (replicate 998 KEY_RIGHT @ [KEY_UP])) = Waiting \<lparr>xs = 9980, run_idx = 9979, end_page = 0\<rparr>"
proof -
  have n: "int (length (read_names big_dir)) = 10000" by (simp add: read_names_big_dir)
  have w: "result (emu_select_list big_dir (replicate 998 KEY_RIGHT)) =
      Waiting \<lparr>xs = 9980, run_idx = 9980, end_page = 0\<rparr>"
    using right_presses [OF valid_big_dir, of 998] n by simp
  have r: "switch_ch (int (length (read_names big_dir))) \<lparr>xs = 9980, run_idx = 9980, end_page = 0\<rparr> KEY_RIGHT =
     Some \<lparr>xs = 9990, run_idx = 9990, end_page = 0\<rparr>" by simp
  have u: "switch_ch (int (length (read_names big_dir))) \<lparr>xs = 9980, run_idx = 9980, end_page = 0\<rparr> KEY_UP =
     Some \<lparr>xs = 9980, run_idx = 9979, end_page = 0\<rparr>" by simp
  from out_of_range_at_render [OF valid_big_dir w r, of "[NEWLINE]"]
    out_of_range_at_render [OF valid_big_dir w u, of "[]"] valid_big_dir w r
  show ?thesis by (simp add: n)
qed


text \<open>
  C10. For a directory of file names, the array is allocated with (sum of the name lengths) + 1
  slots, which is at least N + 1 for N names; the copy loop stores the N names in bounds and
  leaves the other slots \<^verbatim>\<open>NULL\<close>. In every session, no render pass and no other step reads outside
  the allocation; every index a render pass reads lies between 0 and N and holds a name (below
  N) or \<^verbatim>\<open>NULL\<close> (at N); and the pass over the page of a state the session waits in reads only
  indices from \<open>xs\<close> to \<open>min (xs + 10) N\<close>.
\<close>

theorem probes_in_bounds:
  assumes "valid_dir dents"
  shows "read_loop dents (replicate (name_sz (emu_content_len dents) + 1) None) 0 =
           Inr (map Some (read_names dents) @
                  replicate (name_sz (emu_content_len dents) + 1 - length (read_names dents)) None,
                int (length (read_names dents))) \<and>
         length (menu_arr dents) = name_sz (emu_content_len dents) + 1 \<and>
         length (read_names dents) + 1 \<le> length (menu_arr dents) \<and>
         result (emu_select_list dents keys) \<noteq> Failed BadAccess \<and>
         (\<forall>p \<in> set (passes (emu_select_list dents keys)).
            stopped p \<noteq> Some BadAccess \<and>
            (\<forall>i \<in> set (probed p).
               0 \<le> i \<and> i \<le> int (length (read_names dents)) \<and> i < int (length (menu_arr dents)) \<and>
               arr_at (menu_arr dents) i =
                 (if i < int (length (read_names dents))
                  then Some (Some (list_entries_spec dents ! nat i)) else Some None))) \<and>
         (\<forall>st. result (emu_select_list dents keys) = Waiting st \<longrightarrow>
            set (probed (render_loop (menu_arr dents) (run_idx st) (xs st) (end_page st) (xs st) 0)) \<subseteq>
              {xs st .. min (xs st + 10) (int (length (read_names dents)))})"
proof -
  have le: "length (read_names dents) \<le> name_sz (emu_content_len dents)"
    using length_le_name_weight [OF assms] by (simp add: name_sz_emu_content_len)
  then have len: "length (menu_arr dents) = name_sz (emu_content_len dents) + 1"
    by (simp add: menu_arr_def length_list_entries_spec)
  with le have room: "length (read_names dents) + 1 \<le> length (menu_arr dents)" by simp
  have probes: "stopped p \<noteq> Some BadAccess \<and>
            (\<forall>i \<in> set (probed p).
               0 \<le> i \<and> i \<le> int (length (read_names dents)) \<and> i < int (length (menu_arr dents)) \<and>
               arr_at (menu_arr dents) i =
                 (if i < int (length (read_names dents))
                  then Some (Some (list_entries_spec dents ! nat i)) else Some None))"
    if p: "p \<in> set (passes (emu_select_list dents keys))" for p
  proof -
    from session_passes [OF assms p] have ok: "stopped p \<noteq> Some BadAccess"
      and sub: "set (probed p) \<subseteq> {0 .. int (length (read_names dents))}" by simp_all
    have "0 \<le> i \<and> i \<le> int (length (read_names dents)) \<and> i < int (length (menu_arr dents)) \<and>
               arr_at (menu_arr dents) i =
                 (if i < int (length (read_names dents))
                  then Some (Some (list_entries_spec dents ! nat i)) else Some None)"
      if "i \<in> set (probed p)" for i
    proof -
      from that sub have i: "0 \<le> i" "i \<le> int (length (read_names dents))" by auto
      with room have "i < int (length (menu_arr dents))" by simp
      with i menu_arr_at [OF assms i] show ?thesis by simp
    qed
    with ok show ?thesis by blast
  qed
  from read_loop_valid_dir [OF assms] len room session_no_bad_access [OF assms, of keys] probes
    session_probes_page [OF assms, of keys]
  show ?thesis by blast
qed

theorem probes_in_bounds_witness:
  "valid_dir twelve_dir \<and>
   length (menu_arr twelve_dir) = 61 \<and>
   map probed (passes (emu_select_list twelve_dir [KEY_RIGHT])) =
     [[0, 1, 1, 2, 2, 3, 3, 4, 4, 5, 5, 6, 6, 7, 7, 8, 8, 9, 9, 10], [10, 11, 11, 12]] \<and>
   arr_at (menu_arr twelve_dir) 11 = Some (Some ''l.cfg'') \<and>
   arr_at (menu_arr twelve_dir) 12 = Some None \<and>
   result (emu_select_list twelve_dir [KEY_RIGHT]) = Waiting \<lparr>xs = 10, run_idx = 10, end_page = 1\<rparr> \<and>
   set (probed (render_loop (menu_arr twelve_dir) 10 10 1 10 0)) \<subseteq> {10 .. 12}"
proof -
  have v: "valid_dir twelve_dir" by code_simp
  have n: "length (read_names twelve_dir) = 12" by code_simp
  have sz: "name_sz (emu_content_len twelve_dir) = 60" by code_simp
  have pr: "map probed (passes (emu_select_list twelve_dir [KEY_RIGHT])) =
     [[0, 1, 1, 2, 2, 3, 3, 4, 4, 5, 5, 6, 6, 7, 7, 8, 8, 9, 9, 10], [10, 11, 11, 12]]" by code_simp
  have w: "result (emu_select_list twelve_dir [KEY_RIGHT]) = Waiting \<lparr>xs = 10, run_idx = 10, end_page = 1\<rparr>"
    by code_simp
  have e: "list_entries_spec twelve_dir ! 11 = ''l.cfg''" by code_simp
  note t = probes_in_bounds [OF v, of "[KEY_RIGHT]"]
  from t have len: "length (menu_arr twelve_dir) = 61" by (simp add: sz)
  have "[10, 11, 11, 12] \<in> set (map probed (passes (emu_select_list twelve_dir [KEY_RIGHT])))"
    unfolding pr by simp
  then obtain p where p: "p \<in> set (passes (emu_select_list twelve_dir [KEY_RIGHT]))"
    and pp: "probed p = [10, 11, 11, 12]" by auto
  from t p have "\<forall>i \<in> set (probed p).
      arr_at (menu_arr twelve_dir) i =
        (if i < int (length (read_names twelve_dir))
         then Some (Some (list_entries_spec twelve_dir ! nat i)) else Some None)" by blast
  then have a: "arr_at (menu_arr twelve_dir) 11 = Some (Some ''l.cfg'')"
    and b: "arr_at (menu_arr twelve_dir) 12 = Some None"
    by (simp_all add: pp n e)
  from t w have "set (probed (render_loop (menu_arr twelve_dir) 10 10 1 10 0)) \<subseteq> {10 .. 12}"
    by (simp add: n)
  with v len pr a b w show ?thesis by blast
qed


end
